theory Spec2Isabelle
  imports Main "HOL-Library.Code_Target_Nat"
begin

section \<open>Strings\<close>

text \<open>
  A Python \<open>str\<close> is a sequence of Unicode code points. A code point is modelled as a
  natural number and a string as a list of them, so that \<open>length\<close>, the regular
  expression's \<open>.\<close> and \<open>str.strip\<close> count what Python counts. \<open>asc\<close> reads an ASCII
  literal; the two arrows of the navigation labels are U+2190 and U+2192.
\<close>

type_synonym ustring = "nat list"

definition asc :: "string \<Rightarrow> ustring" where
  "asc s = map of_char s"

definition NL :: nat where
  "NL = 10"

definition LARROW :: nat where
  "LARROW = 8592"

definition RARROW :: nat where
  "RARROW = 8594"

text \<open>\<open>s.startswith(p)\<close>, and the rest of \<open>s\<close> past a literal \<open>p\<close> of a pattern.\<close>

fun starts_with :: "ustring \<Rightarrow> ustring \<Rightarrow> bool" where
  "starts_with [] s = True"
| "starts_with (p # ps) [] = False"
| "starts_with (p # ps) (c # cs) = (p = c \<and> starts_with ps cs)"

definition lit :: "ustring \<Rightarrow> ustring \<Rightarrow> ustring option" where
  "lit p s = (if starts_with p s then Some (drop (length p) s) else None)"

text \<open>\<open>p in s\<close> for strings: \<open>p\<close> occurs at some position of \<open>s\<close>.\<close>

fun contains :: "ustring \<Rightarrow> ustring \<Rightarrow> bool" where
  "contains p [] = starts_with p []"
| "contains p (c # cs) = (starts_with p (c # cs) \<or> contains p cs)"

section \<open>The regular expressions of the script\<close>

text \<open>
  Python's \<open>re\<close> is a backtracking matcher. The three patterns of the script are built
  from literals and the lazy \<open>.*?\<close>, where \<open>.\<close> is any character but the newline.
  \<open>lazy_dot k acc s\<close> is \<open>.*?\<close> followed by the rest \<open>k\<close> of the pattern: it tries \<open>k\<close> with
  nothing consumed, and each time \<open>k\<close> fails it consumes one more character that is not
  a newline. \<open>acc\<close> holds what \<open>.*?\<close> has consumed, for the capturing group.
\<close>

fun lazy_dot :: "(ustring \<Rightarrow> ustring \<Rightarrow> 'a option) \<Rightarrow> ustring \<Rightarrow> ustring \<Rightarrow> 'a option" where
  "lazy_dot k acc [] = k acc []"
| "lazy_dot k acc (c # cs) =
     (case k acc (c # cs) of
        Some r \<Rightarrow> Some r
      | None \<Rightarrow> if c = NL then None else lazy_dot k (acc @ [c]) cs)"

text \<open>
  \<open>\[.*?\]\((docs/.*?\.md)\)\<close> tried at the start of \<open>s\<close>: the captured group and what
  follows the match.
\<close>

definition link_tail :: "ustring \<Rightarrow> ustring \<Rightarrow> (ustring \<times> ustring) option" where
  "link_tail y s =
     (case lit (asc ''.md)'') s of
        None \<Rightarrow> None
      | Some rest \<Rightarrow> Some (asc ''docs/'' @ y @ asc ''.md'', rest))"

definition link_mid :: "ustring \<Rightarrow> ustring \<Rightarrow> (ustring \<times> ustring) option" where
  "link_mid x s =
     (case lit (asc ''](docs/'') s of
        None \<Rightarrow> None
      | Some s' \<Rightarrow> lazy_dot link_tail [] s')"

definition match_link :: "ustring \<Rightarrow> (ustring \<times> ustring) option" where
  "match_link s =
     (case lit (asc ''['') s of
        None \<Rightarrow> None
      | Some s' \<Rightarrow> lazy_dot link_mid [] s')"

text \<open>
  \<open>re.finditer\<close>: the matches from left to right, none overlapping another. The search
  tries the pattern at the current position; past a match it goes on where the match
  ended, and one character further when there was none. \<open>pos\<close> is the offset of \<open>s\<close> in the text,
  so every match comes with the offset at which it starts. \<open>re.findall\<close> with one
  group returns the groups of these matches.
\<close>

function finditer :: "nat \<Rightarrow> ustring \<Rightarrow> (nat \<times> ustring) list" where
  "finditer pos s =
     (case match_link s of
        Some (g, rest) \<Rightarrow> (pos, g) # finditer (pos + (length s - length rest)) rest
      | None \<Rightarrow> (case s of [] \<Rightarrow> [] | c # cs \<Rightarrow> finditer (Suc pos) cs))"
  by pat_completeness auto
termination
proof (relation "measure (\<lambda>(pos, s). length s)")
  show "wf (measure (\<lambda>(pos, s). length s))"
    by simp
next
  fix pos :: nat and s x y :: ustring and x2
  assume m: "match_link s = Some x2" "(x, y) = x2"
  have le: "length r \<le> length t"
    if "lazy_dot k acc t = Some (g, r)"
      and "\<forall>a u g' r'. k a u = Some (g', r') \<longrightarrow> length r' \<le> length u"
    for k :: "ustring \<Rightarrow> ustring \<Rightarrow> (ustring \<times> ustring) option" and acc t g r
    using that
  proof (induction t arbitrary: acc)
    case Nil
    then show ?case by fastforce
  next
    case (Cons c cs)
    show ?case
    proof (cases "k acc (c # cs)")
      case None
      with Cons.prems(1) have "lazy_dot k (acc @ [c]) cs = Some (g, r)"
        by (simp split: if_splits)
      from Cons.IH [OF this Cons.prems(2)] show ?thesis by simp
    next
      case (Some v)
      with Cons.prems(1) have "k acc (c # cs) = Some (g, r)" by simp
      with Cons.prems(2) show ?thesis by blast
    qed
  qed
  have tail: "\<forall>a u g' r'. link_tail a u = Some (g', r') \<longrightarrow> length r' \<le> length u"
    by (auto simp: link_tail_def lit_def split: if_splits option.splits)
  have mid: "\<forall>a u g' r'. link_mid a u = Some (g', r') \<longrightarrow> length r' \<le> length u"
  proof (intro allI impI)
    fix a u g' r'
    assume that: "link_mid a u = Some (g', r')"
    from that obtain u' where u': "lit (asc ''](docs/'') u = Some u'"
      and l: "lazy_dot link_tail [] u' = Some (g', r')"
      by (auto simp: link_mid_def split: option.splits)
    from le [OF l tail] have "length r' \<le> length u'" .
    moreover from u' have "length u' \<le> length u"
      by (auto simp: lit_def split: if_splits)
    ultimately show "length r' \<le> length u" by simp
  qed
  from m obtain s' where s': "lit (asc ''['') s = Some s'"
    and l: "lazy_dot link_mid [] s' = Some (x, y)"
    by (auto simp: match_link_def split: option.splits)
  from le [OF l mid] have "length y \<le> length s'" .
  moreover from s' have "length s' < length s"
    by (cases s) (auto simp: lit_def asc_def split: if_splits)
  ultimately show "((pos + (length s - length y), y), (pos, s)) \<in> measure (\<lambda>(pos, s). length s)"
    by simp
next
  fix pos :: nat and s :: ustring and c cs
  assume "s = c # cs"
  then show "((Suc pos, cs), (pos, s)) \<in> measure (\<lambda>(pos, s). length s)"
    by simp
qed

definition findall :: "ustring \<Rightarrow> ustring list" where
  "findall s = map snd (finditer 0 s)"

text \<open>
  \<open>dict.fromkeys(xs)\<close> inserts the elements of \<open>xs\<close> one by one as keys; a key
  that is already there keeps its place. \<open>list\<close> of the dictionary is its keys in
  insertion order, which is all that is kept here.
\<close>

definition add_key :: "'a list \<Rightarrow> 'a \<Rightarrow> 'a list" where
  "add_key ks x = (if x \<in> set ks then ks else ks @ [x])"

definition fromkeys :: "'a list \<Rightarrow> 'a list" where
  "fromkeys xs = foldl add_key [] xs"

definition extract_doc_links_from_readme :: "ustring \<Rightarrow> ustring list" where
  "extract_doc_links_from_readme readme_content = fromkeys (findall readme_content)"

section \<open>The Python library functions the script calls\<close>

subsection \<open>\<open>str.strip\<close>, \<open>str.replace\<close>, \<open>str.join\<close>\<close>

text \<open>
  \<open>str.strip()\<close> without argument removes the leading and trailing characters that are
  whitespace for \<open>str.isspace\<close>: the ASCII controls 9 to 13 and 28 to 31, the space,
  U+0085, U+00A0, U+1680, U+2000 to U+200A, U+2028, U+2029, U+202F, U+205F and U+3000.
\<close>

definition is_whitespace :: "nat \<Rightarrow> bool" where
  "is_whitespace c \<longleftrightarrow>
     (9 \<le> c \<and> c \<le> 13) \<or> (28 \<le> c \<and> c \<le> 32) \<or> c = 133 \<or> c = 160 \<or> c = 5760 \<or>
     (8192 \<le> c \<and> c \<le> 8202) \<or> c = 8232 \<or> c = 8233 \<or> c = 8239 \<or> c = 8287 \<or> c = 12288"

definition lstrip :: "ustring \<Rightarrow> ustring" where
  "lstrip s = dropWhile is_whitespace s"

definition rstrip :: "ustring \<Rightarrow> ustring" where
  "rstrip s = rev (dropWhile is_whitespace (rev s))"

definition strip :: "ustring \<Rightarrow> ustring" where
  "strip s = rstrip (lstrip s)"

text \<open>\<open>s.replace("_", " ")\<close>: both strings are one character long.\<close>

definition replace_underscores :: "ustring \<Rightarrow> ustring" where
  "replace_underscores s = map (\<lambda>c. if c = 95 then 32 else c) s"

fun join :: "ustring \<Rightarrow> ustring list \<Rightarrow> ustring" where
  "join sep [] = []"
| "join sep [x] = x"
| "join sep (x # y # ys) = x @ sep @ join sep (y # ys)"

subsection \<open>\<open>str.title\<close>\<close>

text \<open>
  \<open>str.title()\<close> reads the Unicode character database of the interpreter, which is not
  part of the script: it is a parameter here. CPython maps a character with the
  lowercase mapping when the preceding character is cased and with the titlecase
  mapping otherwise; both mappings may give up to three characters. The lowercase of
  the capital sigma U+03A3 is the final sigma U+03C2 when a cased character comes
  on its left and none on its right, case-ignorable characters skipped, and U+03C3
  otherwise.
\<close>

record ucd =
  is_cased :: "nat \<Rightarrow> bool"
  is_case_ignorable :: "nat \<Rightarrow> bool"
  to_title_full :: "nat \<Rightarrow> ustring"
  to_lower_full :: "nat \<Rightarrow> ustring"

definition handle_capital_sigma :: "ucd \<Rightarrow> ustring \<Rightarrow> ustring \<Rightarrow> nat" where
  "handle_capital_sigma db left right =
     (let final_sigma =
            (case dropWhile (is_case_ignorable db) (rev left) of
               [] \<Rightarrow> False
             | c # _ \<Rightarrow> is_cased db c);
          final_sigma =
            (if final_sigma
             then (case dropWhile (is_case_ignorable db) right of
                     [] \<Rightarrow> True
                   | c # _ \<Rightarrow> \<not> is_cased db c)
             else final_sigma)
      in if final_sigma then 962 else 963)"

definition lower_ucs4 :: "ucd \<Rightarrow> ustring \<Rightarrow> nat \<Rightarrow> ustring \<Rightarrow> ustring" where
  "lower_ucs4 db left c right =
     (if c = 931 then [handle_capital_sigma db left right] else to_lower_full db c)"

fun do_title :: "ucd \<Rightarrow> bool \<Rightarrow> ustring \<Rightarrow> ustring \<Rightarrow> ustring" where
  "do_title db previous_is_cased left [] = []"
| "do_title db previous_is_cased left (c # cs) =
     (if previous_is_cased then lower_ucs4 db left c cs else to_title_full db c)
     @ do_title db (is_cased db c) (left @ [c]) cs"

definition title :: "ucd \<Rightarrow> ustring \<Rightarrow> ustring" where
  "title db s = do_title db False [] s"

text \<open>
  The character database below code point 128: the letters are the cased characters,
  the apostrophe, full stop, colon, circumflex and grave accent the case-ignorable
  ones. \<open>ascii_ucd\<close> takes every other code point as uncased and unchanged, which is
  correct for the two arrows; it serves to evaluate the script on ASCII file names.
  \<open>ascii_conform\<close> says that a database agrees with it below 128, as Unicode does.
\<close>

definition ascii_ucd :: ucd where
  "ascii_ucd =
     \<lparr> is_cased = (\<lambda>c. (65 \<le> c \<and> c \<le> 90) \<or> (97 \<le> c \<and> c \<le> 122)),
       is_case_ignorable = (\<lambda>c. c = 39 \<or> c = 46 \<or> c = 58 \<or> c = 94 \<or> c = 96),
       to_title_full = (\<lambda>c. if 97 \<le> c \<and> c \<le> 122 then [c - 32] else [c]),
       to_lower_full = (\<lambda>c. if 65 \<le> c \<and> c \<le> 90 then [c + 32] else [c]) \<rparr>"

definition ascii_conform :: "ucd \<Rightarrow> bool" where
  "ascii_conform db \<longleftrightarrow>
     (\<forall>c<128. is_cased db c = is_cased ascii_ucd c
           \<and> is_case_ignorable db c = is_case_ignorable ascii_ucd c
           \<and> to_title_full db c = to_title_full ascii_ucd c
           \<and> to_lower_full db c = to_lower_full ascii_ucd c)"

subsection \<open>\<open>pathlib.Path\<close>: \<open>name\<close> and \<open>stem\<close>\<close>

text \<open>
  \<open>str.split(sep)\<close> for a separator of one character; the result is never empty.
\<close>

fun split_acc :: "nat \<Rightarrow> ustring \<Rightarrow> ustring \<Rightarrow> ustring list" where
  "split_acc sep cur [] = [cur]"
| "split_acc sep cur (c # cs) =
     (if c = sep then cur # split_acc sep [] cs else split_acc sep (cur @ [c]) cs)"

definition split :: "nat \<Rightarrow> ustring \<Rightarrow> ustring list" where
  "split sep s = split_acc sep [] s"

text \<open>
  A POSIX path keeps, behind its root, the components between slashes that are neither
  empty nor \<open>.\<close>; \<open>name\<close> is the last of them, and the empty string when there is none.
\<close>

definition path_parts :: "ustring \<Rightarrow> ustring list" where
  "path_parts p = filter (\<lambda>x. x \<noteq> [] \<and> x \<noteq> asc ''.'') (split 47 p)"

definition path_name :: "ustring \<Rightarrow> ustring" where
  "path_name p = (case rev (path_parts p) of [] \<Rightarrow> [] | x # _ \<Rightarrow> x)"

text \<open>
  \<open>s.rfind(c)\<close>: the index of the last \<open>c\<close>, \<open>None\<close> for Python's \<open>-1\<close>. \<open>stem\<close> as pathlib
  defines it up to Python 3.13: the name up to its last dot, when that dot is neither
  the first nor the last character of the name.
\<close>

definition rfind :: "nat \<Rightarrow> ustring \<Rightarrow> nat option" where
  "rfind c s =
     (if c \<in> set s then Some (length s - 1 - length (takeWhile (\<lambda>x. x \<noteq> c) (rev s)))
      else None)"

definition path_stem :: "ustring \<Rightarrow> ustring" where
  "path_stem p =
     (let name = path_name p
      in case rfind 46 name of
           None \<Rightarrow> name
         | Some i \<Rightarrow> if 0 < i \<and> i < length name - 1 then take i name else name)"

section \<open>The navigation injector\<close>

definition get_relative_link :: "ustring \<Rightarrow> ustring" where
  "get_relative_link file_path = path_name file_path"

text \<open>The title of a neighbour: \<open>Path(f).stem.replace("_", " ").title()\<close>.\<close>

definition derive_title :: "ucd \<Rightarrow> ustring \<Rightarrow> ustring" where
  "derive_title db f = title db (replace_underscores (path_stem f))"

definition prev_entry :: "ucd \<Rightarrow> ustring \<Rightarrow> ustring" where
  "prev_entry db prev_file =
     (let prev_name = derive_title db prev_file;
          prev_link = get_relative_link prev_file
      in asc ''['' @ [LARROW] @ asc '' Previous: '' @ prev_name @ asc ''](''
         @ prev_link @ asc '')'')"

definition next_entry :: "ucd \<Rightarrow> ustring \<Rightarrow> ustring" where
  "next_entry db next_file =
     (let next_name = derive_title db next_file;
          next_link = get_relative_link next_file
      in asc ''[Next: '' @ next_name @ asc '' '' @ [RARROW] @ asc ''](''
         @ next_link @ asc '')'')"

text \<open>
  \<open>if prev_file:\<close> holds for a string that is neither \<open>None\<close> nor empty.
\<close>

fun truthy :: "ustring option \<Rightarrow> bool" where
  "truthy None = False"
| "truthy (Some s) = (s \<noteq> [])"

fun entry_if :: "(ustring \<Rightarrow> ustring) \<Rightarrow> ustring option \<Rightarrow> ustring list" where
  "entry_if f None = []"
| "entry_if f (Some s) = (if s \<noteq> [] then [f s] else [])"

definition navigation :: "ucd \<Rightarrow> ustring option \<Rightarrow> ustring option \<Rightarrow> ustring list" where
  "navigation db prev_file next_file =
     entry_if (prev_entry db) prev_file @ entry_if (next_entry db) next_file"

definition nav_text :: "ucd \<Rightarrow> ustring option \<Rightarrow> ustring option \<Rightarrow> ustring" where
  "nav_text db prev_file next_file = join (asc '' | '') (navigation db prev_file next_file)"

text \<open>
  The two patterns of \<open>re.sub\<close> are a literal marker, \<open>.*?\<close> and a newline. Tried at the
  start of \<open>s\<close>, such a pattern gives what follows the match.
\<close>

definition PREV_MARK :: ustring where
  "PREV_MARK = asc ''['' @ [LARROW] @ asc '' Previous:''"

definition NEXT_MARK :: ustring where
  "NEXT_MARK = asc ''[Next:''"

definition line_end :: "ustring \<Rightarrow> ustring \<Rightarrow> ustring option" where
  "line_end x s = lit [NL] s"

definition match_line :: "ustring \<Rightarrow> ustring \<Rightarrow> ustring option" where
  "match_line mark s =
     (case lit mark s of
        None \<Rightarrow> None
      | Some s' \<Rightarrow> lazy_dot line_end [] s')"

text \<open>
  \<open>re.sub(pattern, "", s)\<close>: every match found from left to right is dropped, every
  other character is kept.
\<close>

function re_sub :: "ustring \<Rightarrow> ustring \<Rightarrow> ustring" where
  "re_sub mark s =
     (case match_line mark s of
        Some rest \<Rightarrow> re_sub mark rest
      | None \<Rightarrow> (case s of [] \<Rightarrow> [] | c # cs \<Rightarrow> c # re_sub mark cs))"
  by pat_completeness auto
termination
proof (relation "measure (\<lambda>(mark, s). length s)")
  show "wf (measure (\<lambda>(mark, s). length s))"
    by simp
next
  fix mark s rest :: ustring
  assume m: "match_line mark s = Some rest"
  have lt: "length r < length t" if "lazy_dot line_end acc t = Some r" for acc t r
    using that
  proof (induction t arbitrary: acc)
    case Nil
    then show ?case by (simp add: line_end_def lit_def)
  next
    case (Cons c cs)
    show ?case
    proof (cases "line_end acc (c # cs)")
      case None
      with Cons.prems have "lazy_dot line_end (acc @ [c]) cs = Some r"
        by (simp split: if_splits)
      from Cons.IH [OF this] show ?thesis by simp
    next
      case (Some v)
      with Cons.prems have "line_end acc (c # cs) = Some r" by simp
      then show ?thesis by (auto simp: line_end_def lit_def split: if_splits)
    qed
  qed
  from m obtain s' where s': "lit mark s = Some s'" and l: "lazy_dot line_end [] s' = Some rest"
    by (auto simp: match_line_def split: option.splits)
  from lt [OF l] have "length rest < length s'" .
  moreover from s' have "length s' \<le> length s"
    by (auto simp: lit_def split: if_splits)
  ultimately show "((mark, rest), (mark, s)) \<in> measure (\<lambda>(mark, s). length s)"
    by simp
next
  fix mark s :: ustring and c cs
  assume "s = c # cs"
  then show "((mark, cs), (mark, s)) \<in> measure (\<lambda>(mark, s). length s)"
    by simp
qed

definition has_navigation :: "ustring \<Rightarrow> bool" where
  "has_navigation content \<longleftrightarrow>
     contains ([LARROW] @ asc '' Previous:'') content \<or> contains (asc ''Next:'') content"

definition strip_navigation :: "ustring \<Rightarrow> ustring" where
  "strip_navigation content =
     (if has_navigation content
      then re_sub NEXT_MARK (re_sub PREV_MARK content)
      else content)"

definition nav_block :: "ustring \<Rightarrow> ustring" where
  "nav_block nav = [NL] @ nav @ [NL]"

definition add_navigation_links :: "ucd \<Rightarrow> ustring \<Rightarrow> ustring option \<Rightarrow> ustring option \<Rightarrow> ustring" where
  "add_navigation_links db content prev_file next_file =
     (if navigation db prev_file next_file = [] then content
      else
        let nav = nav_text db prev_file next_file;
            content' = strip_navigation content
        in nav_block nav @ [NL] @ strip content' @ [NL] @ nav_block nav @ [NL])"

section \<open>The orchestrator\<close>

text \<open>
  The file system is outside the script. A location of type \<open>'loc\<close> is what a path
  resolves to; \<open>resolve f\<close> stands for \<open>readme_path.parent / f\<close>, so two links may name
  the same location. At a location there is nothing (\<open>exists()\<close> is false), a text file
  with its content, which \<open>write_text\<close> may or may not be allowed to replace, or
  something that exists and makes \<open>read_text\<close> raise (a directory, a file without read
  permission or with undecodable bytes). \<open>print\<close> appends a line to the standard output.
\<close>

datatype node = File ustring bool | Unreadable

datatype 'loc io_error = ReadFailed 'loc | WriteFailed 'loc

record 'loc world =
  files :: "'loc \<Rightarrow> node option"
  stdout :: "ustring list"

definition print :: "ustring \<Rightarrow> 'loc world \<Rightarrow> 'loc world" where
  "print line w = w\<lparr>stdout := stdout w @ [line]\<rparr>"

definition read_text :: "'loc world \<Rightarrow> 'loc \<Rightarrow> 'loc io_error + ustring" where
  "read_text w l =
     (case files w l of
        Some (File content writable) \<Rightarrow> Inr content
      | _ \<Rightarrow> Inl (ReadFailed l))"

definition write_text :: "'loc world \<Rightarrow> 'loc \<Rightarrow> ustring \<Rightarrow> 'loc io_error + 'loc world" where
  "write_text w l content =
     (case files w l of
        Some (File old writable) \<Rightarrow>
          if writable then Inr (w\<lparr>files := (files w)(l \<mapsto> File content writable)\<rparr>)
          else Inl (WriteFailed l)
      | Some Unreadable \<Rightarrow> Inl (WriteFailed l)
      | None \<Rightarrow> Inr (w\<lparr>files := (files w)(l \<mapsto> File content True)\<rparr>))"

text \<open>
  \<open>doc_files[i - 1] if i > 0 else None\<close> and \<open>doc_files[i + 1] if i < len(doc_files) - 1
  else None\<close>, for an index \<open>i\<close> of \<open>enumerate(doc_files)\<close>: both reads are in range.
\<close>

definition prev_of :: "ustring list \<Rightarrow> nat \<Rightarrow> ustring option" where
  "prev_of doc_files i = (if i > 0 then Some (doc_files ! (i - 1)) else None)"

definition next_of :: "ustring list \<Rightarrow> nat \<Rightarrow> ustring option" where
  "next_of doc_files i = (if i < length doc_files - 1 then Some (doc_files ! (i + 1)) else None)"

definition warning_line :: "ustring \<Rightarrow> ustring" where
  "warning_line current_file = asc ''Warning: '' @ current_file @ asc '' not found''"

definition updated_line :: "ustring \<Rightarrow> ustring" where
  "updated_line current_file = asc ''Updated '' @ current_file"

text \<open>
  The body of the \<open>for\<close> loop, and the loop over the pairs of \<open>enumerate(doc_files)\<close> that
  are still to come. An exception ends the loop with \<open>Inl\<close>.
\<close>

definition process_file ::
  "ucd \<Rightarrow> (ustring \<Rightarrow> 'loc) \<Rightarrow> ustring list \<Rightarrow> nat \<Rightarrow> ustring \<Rightarrow> 'loc world
     \<Rightarrow> 'loc io_error + 'loc world" where
  "process_file db resolve doc_files i current_file w =
     (let current_path = resolve current_file
      in if files w current_path = None then Inr (print (warning_line current_file) w)
         else
           let prev_file = prev_of doc_files i;
               next_file = next_of doc_files i
           in case read_text w current_path of
                Inl e \<Rightarrow> Inl e
              | Inr content \<Rightarrow>
                  let updated_content = add_navigation_links db content prev_file next_file
                  in case write_text w current_path updated_content of
                       Inl e \<Rightarrow> Inl e
                     | Inr w' \<Rightarrow> Inr (print (updated_line current_file) w'))"

fun process_loop ::
  "ucd \<Rightarrow> (ustring \<Rightarrow> 'loc) \<Rightarrow> ustring list \<Rightarrow> (nat \<times> ustring) list \<Rightarrow> 'loc world
     \<Rightarrow> 'loc io_error + 'loc world" where
  "process_loop db resolve doc_files [] w = Inr w"
| "process_loop db resolve doc_files ((i, current_file) # todo) w =
     (case process_file db resolve doc_files i current_file w of
        Inl e \<Rightarrow> Inl e
      | Inr w' \<Rightarrow> process_loop db resolve doc_files todo w')"

definition enumerate_list :: "'a list \<Rightarrow> (nat \<times> 'a) list" where
  "enumerate_list xs = zip [0..<length xs] xs"

definition process_documentation_files ::
  "ucd \<Rightarrow> (ustring \<Rightarrow> 'loc) \<Rightarrow> 'loc \<Rightarrow> 'loc world \<Rightarrow> 'loc io_error + 'loc world" where
  "process_documentation_files db resolve readme_path w =
     (case read_text w readme_path of
        Inl e \<Rightarrow> Inl e
      | Inr readme_content \<Rightarrow>
          let doc_files = extract_doc_links_from_readme readme_content
          in process_loop db resolve doc_files (enumerate_list doc_files) w)"

section \<open>Notions of the specification\<close>

text \<open>
  The language of the link pattern, said without the matcher: a markdown link
  \<open>[label](target)\<close> whose target is \<open>docs/\<close>, some characters and \<open>.md\<close>, with no newline
  in the label or in the target. \<open>has_doc_link s\<close> holds when such a link occurs in \<open>s\<close>.
\<close>

definition doc_target :: "ustring \<Rightarrow> ustring" where
  "doc_target y = asc ''docs/'' @ y @ asc ''.md''"

definition md_link :: "ustring \<Rightarrow> ustring \<Rightarrow> ustring" where
  "md_link label target = asc ''['' @ label @ asc '']('' @ target @ asc '')''"

definition has_doc_link :: "ustring \<Rightarrow> bool" where
  "has_doc_link s \<longleftrightarrow>
     (\<exists>pre label y post. s = pre @ md_link label (doc_target y) @ post
        \<and> NL \<notin> set label \<and> NL \<notin> set y)"

text \<open>\<open>s.endswith(p)\<close>.\<close>

definition ends_with :: "ustring \<Rightarrow> ustring \<Rightarrow> bool" where
  "ends_with p s = starts_with (rev p) (rev s)"

text \<open>
  The offset in the text of the first match whose target is \<open>g\<close>, for the matches \<open>ms\<close>
  of \<open>finditer\<close>.
\<close>

definition first_offset :: "(nat \<times> ustring) list \<Rightarrow> ustring \<Rightarrow> nat option" where
  "first_offset ms g = map_of (map (\<lambda>(p, g'). (g', p)) ms) g"

text \<open>
  What the orchestrator can handle at a location: nothing there, or a text file that
  may be written. \<open>report_line\<close> is the line that the specification expects for a path.
\<close>

definition updatable :: "'loc world \<Rightarrow> 'loc \<Rightarrow> bool" where
  "updatable w l =
     (case files w l of
        None \<Rightarrow> True
      | Some (File content writable) \<Rightarrow> writable
      | Some Unreadable \<Rightarrow> False)"

definition report_line :: "'loc world \<Rightarrow> (ustring \<Rightarrow> 'loc) \<Rightarrow> ustring \<Rightarrow> ustring" where
  "report_line w resolve f =
     (if files w (resolve f) = None then warning_line f else updated_line f)"

text \<open>An index with three links, the second to a file that is not there.\<close>

definition example_readme :: ustring where
  "example_readme = asc ''[A](docs/a.md) [M](docs/missing.md) [B](docs/b.md)''"

definition example_world :: "ustring world" where
  "example_world =
     \<lparr> files = [asc ''README.md'' \<mapsto> File example_readme True,
                 asc ''docs/a.md'' \<mapsto> File (asc ''# A'') True,
                 asc ''docs/b.md'' \<mapsto> File (asc ''# B'') True],
       stdout = [] \<rparr>"

text \<open>
  Deleting segments, said without the matcher. A segment starts where one of the
  markers stands and a newline comes somewhere behind the marker; it ends with the
  first such newline. \<open>delete_marked\<close> goes through the text once and leaves out the
  segments of the given markers, \<open>skipping\<close> telling whether it is inside one; the
  markers are not empty and hold no newline. \<open>delete_segments\<close> does so for both
  markers of the script at once, and \<open>has_segment\<close> says whether there is a segment.
\<close>

definition segment_start :: "ustring list \<Rightarrow> ustring \<Rightarrow> bool" where
  "segment_start marks s \<longleftrightarrow>
     (\<exists>m \<in> set marks. starts_with m s \<and> NL \<in> set (drop (length m) s))"

fun delete_marked :: "ustring list \<Rightarrow> bool \<Rightarrow> ustring \<Rightarrow> ustring" where
  "delete_marked marks skipping [] = []"
| "delete_marked marks skipping (c # cs) =
     (if skipping \<or> segment_start marks (c # cs)
      then delete_marked marks (c \<noteq> NL) cs
      else c # delete_marked marks False cs)"

definition delete_segments :: "ustring \<Rightarrow> ustring" where
  "delete_segments s = delete_marked [PREV_MARK, NEXT_MARK] False s"

fun has_segment :: "ustring list \<Rightarrow> ustring \<Rightarrow> bool" where
  "has_segment marks [] = False"
| "has_segment marks (c # cs) = (segment_start marks (c # cs) \<or> has_segment marks cs)"

text \<open>
  Three contents: a page that carries a navigation line of an earlier run, a line
  that is one \<open>[Next:\<close> segment with a \<open>[\<leftarrow> Previous:\<close> marker inside, and a page in which the
  author wrote a \<open>[Next:\<close> link.
\<close>

definition example_page :: ustring where
  "example_page =
     [NL] @ asc ''['' @ [LARROW] @ asc '' Previous: Old](old.md)'' @ [NL, NL]
     @ asc ''# B'' @ [NL] @ asc ''text'' @ [NL]"

definition example_unfinished :: ustring where
  "example_unfinished = asc ''[Next: a ['' @ [LARROW] @ asc '' Previous: b'' @ [NL]"

definition example_authored :: ustring where
  "example_authored =
     asc ''intro'' @ [NL] @ asc ''see [Next: steps](steps.md) below'' @ [NL] @ asc ''end''"

section \<open>Facts about the matcher\<close>

lemma starts_with_iff: "starts_with p s \<longleftrightarrow> (\<exists>r. s = p @ r)"
  by (induction p s rule: starts_with.induct) auto

lemma lit_Some_iff: "lit p s = Some r \<longleftrightarrow> s = p @ r"
  by (auto simp: lit_def starts_with_iff)

lemma lit_None_iff: "lit p s = None \<longleftrightarrow> \<not> (\<exists>r. s = p @ r)"
  by (auto simp: lit_def starts_with_iff)

lemma lazy_dot_sound:
  "lazy_dot k acc s = Some r \<Longrightarrow> \<exists>x t. s = x @ t \<and> NL \<notin> set x \<and> k (acc @ x) t = Some r"
proof (induction s arbitrary: acc)
  case Nil
  then show ?case by simp
next
  case (Cons c cs)
  show ?case
  proof (cases "k acc (c # cs)")
    case (Some v)
    with Cons.prems have "k (acc @ []) (c # cs) = Some r" by simp
    then show ?thesis by (metis append_Nil empty_iff list.set(1))
  next
    case None
    with Cons.prems have c: "c \<noteq> NL" and "lazy_dot k (acc @ [c]) cs = Some r"
      by (auto split: if_splits)
    from Cons.IH [OF this(2)] obtain x t
      where "cs = x @ t" "NL \<notin> set x" "k ((acc @ [c]) @ x) t = Some r" by blast
    with c have "c # cs = (c # x) @ t \<and> NL \<notin> set (c # x) \<and> k (acc @ c # x) t = Some r"
      by simp
    then show ?thesis by blast
  qed
qed

lemma lazy_dot_complete:
  "NL \<notin> set x \<Longrightarrow> k (acc @ x) t = Some r \<Longrightarrow> \<exists>r'. lazy_dot k acc (x @ t) = Some r'"
proof (induction x arbitrary: acc)
  case Nil
  then show ?case by (cases t) auto
next
  case (Cons c x)
  from Cons.prems have "c \<noteq> NL" "NL \<notin> set x" "k ((acc @ [c]) @ x) t = Some r" by auto
  from Cons.IH [OF this(2,3)] obtain r' where "lazy_dot k (acc @ [c]) (x @ t) = Some r'" ..
  with \<open>c \<noteq> NL\<close> show ?case by (cases "k acc (c # x @ t)") auto
qed

lemma match_link_sound:
  assumes "match_link s = Some (g, rest)"
  shows "\<exists>label y. s = md_link label g @ rest \<and> g = doc_target y
           \<and> NL \<notin> set label \<and> NL \<notin> set y"
proof -
  from assms obtain s1 where s1: "s = asc ''['' @ s1" and l1: "lazy_dot link_mid [] s1 = Some (g, rest)"
    by (auto simp: match_link_def lit_Some_iff split: option.splits)
  from lazy_dot_sound [OF l1] obtain label t
    where t: "s1 = label @ t" "NL \<notin> set label" "link_mid label t = Some (g, rest)" by auto
  from t(3) obtain s2 where s2: "t = asc ''](docs/'' @ s2" and l2: "lazy_dot link_tail [] s2 = Some (g, rest)"
    by (auto simp: link_mid_def lit_Some_iff split: option.splits)
  from lazy_dot_sound [OF l2] obtain y u
    where u: "s2 = y @ u" "NL \<notin> set y" "link_tail y u = Some (g, rest)" by auto
  from u(3) have "u = asc ''.md)'' @ rest" "g = doc_target y"
    by (auto simp: link_tail_def lit_Some_iff doc_target_def split: option.splits)
  with s1 t s2 u have "s = md_link label g @ rest"
    by (simp add: md_link_def doc_target_def asc_def)
  with \<open>g = doc_target y\<close> t(2) u(2) show ?thesis by blast
qed

lemma match_link_complete:
  assumes "NL \<notin> set label" "NL \<notin> set y"
  shows "\<exists>r. match_link (md_link label (doc_target y) @ post) = Some r"
proof -
  have "link_tail ([] @ y) (asc ''.md)'' @ post) = Some (doc_target y, post)"
    by (simp add: link_tail_def lit_Some_iff doc_target_def split: option.splits)
  from lazy_dot_complete [where k = link_tail and acc = "[]", OF assms(2) this]
  obtain r1 where "lazy_dot link_tail [] (y @ asc ''.md)'' @ post) = Some r1" ..
  then have "link_mid ([] @ label) (asc ''](docs/'' @ y @ asc ''.md)'' @ post) = Some r1"
    by (simp add: link_mid_def lit_Some_iff split: option.splits)
  from lazy_dot_complete [where k = link_mid and acc = "[]", OF assms(1) this]
  obtain r2 where "lazy_dot link_mid [] (label @ asc ''](docs/'' @ y @ asc ''.md)'' @ post) = Some r2" ..
  moreover have "md_link label (doc_target y) @ post
      = asc ''['' @ (label @ asc ''](docs/'' @ y @ asc ''.md)'' @ post)"
    by (simp add: md_link_def doc_target_def asc_def)
  ultimately show ?thesis
    by (simp add: match_link_def lit_Some_iff split: option.splits)
qed


declare finditer.simps [simp del]

lemma finditer_Some:
  "match_link s = Some (g, rest) \<Longrightarrow>
     finditer pos s = (pos, g) # finditer (pos + (length s - length rest)) rest"
  by (subst finditer.simps) simp

lemma finditer_None_Nil: "finditer pos [] = []"
  by (subst finditer.simps) (simp add: match_link_def lit_def asc_def)

lemma finditer_None_Cons:
  "match_link (c # cs) = None \<Longrightarrow> finditer pos (c # cs) = finditer (Suc pos) cs"
  by (subst finditer.simps) simp

lemma md_link_length: "0 < length (md_link label g)"
  by (simp add: md_link_def asc_def)

lemma finditer_occurs:
  "(p, g) \<in> set (finditer pos s) \<Longrightarrow>
     \<exists>pre label y post. s = pre @ md_link label g @ post \<and> g = doc_target y
        \<and> NL \<notin> set label \<and> NL \<notin> set y \<and> p = pos + length pre"
proof (induction pos s rule: finditer.induct)
  case (1 pos s)
  show ?case
  proof (cases "match_link s")
    case None
    show ?thesis
    proof (cases s)
      case Nil
      with "1.prems" show ?thesis by (simp add: finditer_None_Nil)
    next
      case (Cons c cs)
      with None "1.prems" have "(p, g) \<in> set (finditer (Suc pos) cs)"
        by (simp add: finditer_None_Cons)
      from "1.IH"(1) [OF None Cons this] obtain pre label y post
        where "cs = pre @ md_link label g @ post" "g = doc_target y"
          "NL \<notin> set label" "NL \<notin> set y" "p = Suc pos + length pre" by blast
      with Cons have "s = (c # pre) @ md_link label g @ post \<and> g = doc_target y
          \<and> NL \<notin> set label \<and> NL \<notin> set y \<and> p = pos + length (c # pre)" by simp
      then show ?thesis by blast
    qed
  next
    case (Some m)
    obtain g' rest where m: "m = (g', rest)" by (cases m)
    from match_link_sound [OF Some [unfolded m]] obtain label' y'
      where s: "s = md_link label' g' @ rest" "g' = doc_target y'"
        "NL \<notin> set label'" "NL \<notin> set y'" by blast
    from Some m "1.prems"
    have "(p, g) = (pos, g') \<or> (p, g) \<in> set (finditer (pos + (length s - length rest)) rest)"
      by (simp add: finditer_Some)
    then show ?thesis
    proof
      assume "(p, g) = (pos, g')"
      with s have "s = [] @ md_link label' g @ rest \<and> g = doc_target y'
          \<and> NL \<notin> set label' \<and> NL \<notin> set y' \<and> p = pos + length ([]::ustring)" by simp
      then show ?thesis by blast
    next
      assume "(p, g) \<in> set (finditer (pos + (length s - length rest)) rest)"
      from "1.IH"(2) [OF Some m [symmetric] this] obtain pre label y post
        where r: "rest = pre @ md_link label g @ post" "g = doc_target y"
          "NL \<notin> set label" "NL \<notin> set y" "p = pos + (length s - length rest) + length pre"
        by blast
      from s(1) have "length s - length rest = length (md_link label' g')" by simp
      with r s(1) have "s = (md_link label' g' @ pre) @ md_link label g @ post \<and> g = doc_target y
          \<and> NL \<notin> set label \<and> NL \<notin> set y \<and> p = pos + length (md_link label' g' @ pre)"
        by simp
      then show ?thesis by blast
    qed
  qed
qed

lemma finditer_offsets:
  "sorted_wrt (<) (map fst (finditer pos s)) \<and> (\<forall>m \<in> set (finditer pos s). pos \<le> fst m)"
proof (induction pos s rule: finditer.induct)
  case (1 pos s)
  show ?case
  proof (cases "match_link s")
    case None
    show ?thesis
    proof (cases s)
      case Nil
      then show ?thesis by (simp add: finditer_None_Nil)
    next
      case (Cons c cs)
      with None "1.IH"(1) [OF None Cons] show ?thesis
        by (fastforce simp: finditer_None_Cons)
    qed
  next
    case (Some m)
    obtain g' rest where m: "m = (g', rest)" by (cases m)
    from match_link_sound [OF Some [unfolded m]] obtain label'
      where "s = md_link label' g' @ rest" by blast
    then have "0 < length s - length rest"
      using md_link_length [of label' g'] by simp
    with "1.IH"(2) [OF Some m [symmetric]] Some m show ?thesis
      by (fastforce simp: finditer_Some)
  qed
qed

lemma has_doc_link_Cons: "has_doc_link cs \<Longrightarrow> has_doc_link (c # cs)"
  unfolding has_doc_link_def
proof (elim exE conjE)
  fix pre label y post
  assume "cs = pre @ md_link label (doc_target y) @ post" "NL \<notin> set label" "NL \<notin> set y"
  then have "c # cs = (c # pre) @ md_link label (doc_target y) @ post
      \<and> NL \<notin> set label \<and> NL \<notin> set y" by simp
  then show "\<exists>pre label y post. c # cs = pre @ md_link label (doc_target y) @ post
      \<and> NL \<notin> set label \<and> NL \<notin> set y" by blast
qed

lemma finditer_empty_if: "\<not> has_doc_link s \<Longrightarrow> finditer pos s = []"
proof (induction s arbitrary: pos)
  case Nil
  show ?case by (simp add: finditer_None_Nil)
next
  case (Cons c cs)
  have "match_link (c # cs) = None"
  proof (rule ccontr)
    assume "match_link (c # cs) \<noteq> None"
    then obtain g rest where "match_link (c # cs) = Some (g, rest)" by auto
    from match_link_sound [OF this] obtain label y
      where "c # cs = [] @ md_link label (doc_target y) @ rest" "NL \<notin> set label" "NL \<notin> set y"
      by auto
    then have "has_doc_link (c # cs)" unfolding has_doc_link_def by blast
    with Cons.prems show False by simp
  qed
  moreover from Cons.prems have "\<not> has_doc_link cs" using has_doc_link_Cons by blast
  ultimately show ?case using Cons.IH by (simp add: finditer_None_Cons)
qed

lemma finditer_nonempty_if:
  assumes "NL \<notin> set label" "NL \<notin> set y"
  shows "finditer pos (pre @ md_link label (doc_target y) @ post) \<noteq> []"
proof (induction pre arbitrary: pos)
  case Nil
  from match_link_complete [OF assms, of post] obtain g rest
    where "match_link (md_link label (doc_target y) @ post) = Some (g, rest)" by auto
  then show ?case by (simp add: finditer_Some)
next
  case (Cons c pre)
  show ?case
  proof (cases "match_link ((c # pre) @ md_link label (doc_target y) @ post)")
    case None
    then show ?thesis using Cons.IH by (simp add: finditer_None_Cons)
  next
    case (Some m)
    then show ?thesis by (cases m) (simp add: finditer_Some)
  qed
qed

lemma finditer_empty_iff: "finditer pos s = [] \<longleftrightarrow> \<not> has_doc_link s"
proof
  assume e: "finditer pos s = []"
  show "\<not> has_doc_link s"
  proof
    assume "has_doc_link s"
    then obtain pre label y post where "s = pre @ md_link label (doc_target y) @ post"
      "NL \<notin> set label" "NL \<notin> set y" unfolding has_doc_link_def by blast
    with finditer_nonempty_if [of label y pos pre post] e show False by simp
  qed
qed (rule finditer_empty_if)

lemma foldl_add_key_set: "set (foldl add_key acc xs) = set acc \<union> set xs"
  by (induction xs arbitrary: acc) (auto simp: add_key_def)

lemma foldl_add_key_distinct: "distinct acc \<Longrightarrow> distinct (foldl add_key acc xs)"
  by (induction xs arbitrary: acc) (auto simp: add_key_def)

lemma fromkeys_Nil_iff: "fromkeys xs = [] \<longleftrightarrow> xs = []"
  using foldl_add_key_set [of "[]" xs] by (auto simp: fromkeys_def)

lemma first_offset_in:
  "g \<in> snd ` set ms \<Longrightarrow> \<exists>n. first_offset ms g = Some n \<and> (n, g) \<in> set ms"
proof -
  assume "g \<in> snd ` set ms"
  then have "g \<in> fst ` set (map (\<lambda>(p, g'). (g', p)) ms)" by force
  then obtain n where n: "map_of (map (\<lambda>(p, g'). (g', p)) ms) g = Some n"
    by (meson map_of_eq_None_iff not_Some_eq)
  from map_of_SomeD [OF this] have "(n, g) \<in> set ms" by auto
  with n show ?thesis by (auto simp: first_offset_def)
qed

lemma foldl_add_key_order:
  "sorted_wrt (<) (map fst ms) \<Longrightarrow>
     \<exists>new ps. foldl add_key acc (map snd ms) = acc @ new \<and> set new \<inter> set acc = {}
        \<and> map (first_offset ms) new = map Some ps \<and> sorted_wrt (<) ps
        \<and> set ps \<subseteq> fst ` set ms"
proof (induction ms arbitrary: acc)
  case Nil
  show ?case by simp
next
  case (Cons m ms)
  obtain p g where m: "m = (p, g)" by (cases m)
  from Cons.prems m have srt: "sorted_wrt (<) (map fst ms)" and lt: "\<forall>q \<in> fst ` set ms. p < q"
    by auto
  have fo: "first_offset (m # ms) g' = first_offset ms g'" if "g' \<noteq> g" for g'
    using that m by (simp add: first_offset_def)
  show ?case
  proof (cases "g \<in> set acc")
    case True
    from Cons.IH [OF srt, of acc] obtain new ps
      where n: "foldl add_key acc (map snd ms) = acc @ new" "set new \<inter> set acc = {}"
        "map (first_offset ms) new = map Some ps" "sorted_wrt (<) ps" "set ps \<subseteq> fst ` set ms"
      by blast
    from n(2) True have "\<forall>g' \<in> set new. g' \<noteq> g" by auto
    with fo n(3) have "map (first_offset (m # ms)) new = map Some ps" by (simp cong: map_cong)
    moreover from True m n(1) have "foldl add_key acc (map snd (m # ms)) = acc @ new"
      by (simp add: add_key_def)
    moreover from n(5) have "set ps \<subseteq> fst ` set (m # ms)" by auto
    ultimately show ?thesis using n(2,4) by blast
  next
    case False
    from Cons.IH [OF srt, of "acc @ [g]"] obtain new ps
      where n: "foldl add_key (acc @ [g]) (map snd ms) = (acc @ [g]) @ new"
        "set new \<inter> set (acc @ [g]) = {}"
        "map (first_offset ms) new = map Some ps" "sorted_wrt (<) ps" "set ps \<subseteq> fst ` set ms"
      by blast
    from n(2) have "\<forall>g' \<in> set new. g' \<noteq> g" by auto
    with fo n(3) have "map (first_offset (m # ms)) new = map Some ps" by (simp cong: map_cong)
    moreover have "first_offset (m # ms) g = Some p" using m by (simp add: first_offset_def)
    ultimately have "map (first_offset (m # ms)) (g # new) = map Some (p # ps)" by simp
    moreover from False m n(1) have "foldl add_key acc (map snd (m # ms)) = acc @ (g # new)"
      by (simp add: add_key_def)
    moreover from n(2) False have "set (g # new) \<inter> set acc = {}" by auto
    moreover from n(4,5) lt have "sorted_wrt (<) (p # ps)" by auto
    moreover from n(5) m have "set (p # ps) \<subseteq> fst ` set (m # ms)" by auto
    ultimately show ?thesis by blast
  qed
qed

section \<open>Facts about paths, stripping and the navigation line\<close>

lemma split_acc_no_sep: "sep \<notin> set ys \<Longrightarrow> split_acc sep cur ys = [cur @ ys]"
  by (induction ys arbitrary: cur) auto

lemma split_acc_sep:
  "split_acc sep cur (xs @ sep # ys) = split_acc sep cur xs @ split_acc sep [] ys"
  by (induction xs arbitrary: cur) auto

lemma split_acc_parts: "sep \<notin> set cur \<Longrightarrow> \<forall>x \<in> set (split_acc sep cur s). sep \<notin> set x"
proof (induction s arbitrary: cur)
  case Nil
  then show ?case by simp
next
  case (Cons c s)
  show ?case
  proof (cases "c = sep")
    case True
    with Cons.IH [of "[]"] Cons.prems show ?thesis by simp
  next
    case False
    with Cons.IH [of "cur @ [c]"] Cons.prems show ?thesis by simp
  qed
qed

lemma path_name_no_slash: "47 \<notin> set (path_name p)"
proof (cases "rev (path_parts p)")
  case Nil
  then show ?thesis by (simp add: path_name_def)
next
  case (Cons x xs)
  then have "x \<in> set (path_parts p)" by (metis list.set_intros(1) set_rev)
  then have "x \<in> set (split_acc 47 [] p)" by (simp add: path_parts_def split_def)
  then have "47 \<notin> set x" using split_acc_parts [of 47 "[]" p] by simp
  with Cons show ?thesis by (simp add: path_name_def)
qed

lemma path_name_base:
  assumes "base \<noteq> []" "base \<noteq> asc ''.''" "47 \<notin> set base"
  shows "path_name (dir @ [47] @ base) = base"
proof -
  have "split 47 (dir @ [47] @ base) = split 47 dir @ [base]"
    using assms(3) by (simp add: split_def split_acc_sep split_acc_no_sep)
  with assms(1,2) have "path_parts (dir @ [47] @ base) = path_parts dir @ [base]"
    by (simp add: path_parts_def)
  then show ?thesis by (simp add: path_name_def)
qed

lemma rstrip_prefix: "\<exists>w. u = rstrip u @ w \<and> (\<forall>c \<in> set w. is_whitespace c)"
proof -
  have "rev u = takeWhile is_whitespace (rev u) @ dropWhile is_whitespace (rev u)" by simp
  then have "u = rstrip u @ rev (takeWhile is_whitespace (rev u))"
    unfolding rstrip_def by (metis rev_append rev_rev_ident)
  moreover have "\<forall>c \<in> set (rev (takeWhile is_whitespace (rev u))). is_whitespace c"
    by (auto dest: set_takeWhileD)
  ultimately show ?thesis by blast
qed

lemma strip_ends:
  "strip t = [] \<or> (\<not> is_whitespace (hd (strip t)) \<and> \<not> is_whitespace (last (strip t)))"
proof (cases "strip t = []")
  case False
  have l: "\<not> is_whitespace (last (strip t))"
    using False unfolding strip_def rstrip_def
    by (metis hd_dropWhile last_rev rev_is_Nil_conv)
  define u where "u = lstrip t"
  have st: "strip t = rstrip u" by (simp add: strip_def u_def)
  from rstrip_prefix [of u] obtain w where w: "u = rstrip u @ w" by blast
  with False st have "u \<noteq> []" by auto
  then have "\<not> is_whitespace (hd u)" unfolding u_def lstrip_def by (metis hd_dropWhile)
  moreover from w False st have "hd u = hd (strip t)" by (metis hd_append2)
  ultimately show ?thesis using l by simp
qed simp

lemma lstrip_ws: "\<forall>c \<in> set ws. is_whitespace c \<Longrightarrow> lstrip (ws @ s) = lstrip s"
  by (simp add: lstrip_def dropWhile_append2)

lemma rstrip_ws: "\<forall>c \<in> set ws. is_whitespace c \<Longrightarrow> rstrip (s @ ws) = rstrip s"
  using dropWhile_append2 [of "rev ws" is_whitespace "rev s"] by (simp add: rstrip_def)

lemma lstrip_id: "s \<noteq> [] \<Longrightarrow> \<not> is_whitespace (hd s) \<Longrightarrow> lstrip s = s"
  by (cases s) (simp_all add: lstrip_def)

lemma rstrip_id: "s \<noteq> [] \<Longrightarrow> \<not> is_whitespace (last s) \<Longrightarrow> rstrip s = s"
  by (cases s rule: rev_cases) (simp_all add: rstrip_def)

lemma strip_padded:
  assumes "\<forall>c \<in> set ws1. is_whitespace c" "\<forall>c \<in> set ws2. is_whitespace c"
  shows "strip (ws1 @ strip t @ ws2) = strip t"
proof (cases "strip t = []")
  case True
  have "lstrip (ws1 @ ws2) = []" using assms by (simp add: lstrip_def)
  then have "strip (ws1 @ ws2) = []" by (simp add: strip_def rstrip_def)
  with True show ?thesis by simp
next
  case False
  with strip_ends [of t] have e: "\<not> is_whitespace (hd (strip t))" "\<not> is_whitespace (last (strip t))"
    by auto
  have "lstrip (ws1 @ strip t @ ws2) = lstrip (strip t @ ws2)"
    using assms(1) by (rule lstrip_ws)
  also have "\<dots> = strip t @ ws2"
    using False e(1) by (intro lstrip_id) simp_all
  finally have "strip (ws1 @ strip t @ ws2) = rstrip (strip t @ ws2)" by (simp add: strip_def)
  also have "\<dots> = rstrip (strip t)" using assms(2) by (rule rstrip_ws)
  also have "\<dots> = strip t" using False e(2) by (rule rstrip_id)
  finally show ?thesis .
qed


lemma nav_some_truthy:
  "truthy prev \<or> truthy next \<longleftrightarrow> navigation db prev next \<noteq> []"
  by (cases prev; cases "next") (auto simp: navigation_def)

lemma add_navigation_links_layout:
  "navigation db prev next \<noteq> [] \<Longrightarrow>
     add_navigation_links db content prev next
       = [NL] @ nav_text db prev next @ [NL, NL] @ strip (strip_navigation content)
         @ [NL, NL] @ nav_text db prev next @ [NL, NL]"
  by (simp add: add_navigation_links_def nav_block_def Let_def)

section \<open>Facts about titles\<close>

lemma do_title_ascii:
  assumes "ascii_conform db"
  shows "\<forall>c \<in> set s. c < 128 \<Longrightarrow> do_title db b left s = do_title ascii_ucd b left' s"
proof (induction s arbitrary: b left left')
  case Nil
  show ?case by simp
next
  case (Cons c cs)
  from Cons.prems have c: "c < 128" and cs: "\<forall>c \<in> set cs. c < 128" by auto
  from c assms have eq: "is_cased db c = is_cased ascii_ucd c"
    "to_title_full db c = to_title_full ascii_ucd c"
    "to_lower_full db c = to_lower_full ascii_ucd c"
    by (auto simp: ascii_conform_def)
  from c have "c \<noteq> 931" by simp
  then have "lower_ucs4 db left c cs = lower_ucs4 ascii_ucd left' c cs"
    by (simp add: lower_ucs4_def eq)
  with eq Cons.IH [OF cs] show ?case by simp
qed

lemma title_ascii:
  "ascii_conform db \<Longrightarrow> \<forall>c \<in> set s. c < 128 \<Longrightarrow> title db s = title ascii_ucd s"
  unfolding title_def by (rule do_title_ascii)

lemma ascii_conform_space:
  assumes "ascii_conform db"
  shows "\<not> is_cased db 32" "\<not> is_case_ignorable db 32"
    "to_title_full db 32 = [32]" "to_lower_full db 32 = [32]"
  using assms by (auto simp: ascii_conform_def ascii_ucd_def)

lemma dropWhile_first_kept:
  assumes "\<not> P x"
  shows "(case dropWhile P (u @ x # v) of [] \<Rightarrow> d | c # _ \<Rightarrow> Q c)
       = (case dropWhile P u of [] \<Rightarrow> Q x | c # _ \<Rightarrow> Q c)"
proof (cases "\<forall>c \<in> set u. P c")
  case True
  then have a: "dropWhile P (u @ x # v) = x # v"
    using assms by (simp add: dropWhile_append2)
  from True have b: "dropWhile P u = []" by simp
  show ?thesis unfolding a b by simp
next
  case False
  then have "dropWhile P (u @ x # v) = dropWhile P u @ x # v" "dropWhile P u \<noteq> []"
    by (auto simp: dropWhile_append1)
  then show ?thesis by (cases "dropWhile P u") simp_all
qed

lemma sigma_right:
  assumes "\<not> is_cased db 32" "\<not> is_case_ignorable db 32"
  shows "handle_capital_sigma db left (u @ 32 # v) = handle_capital_sigma db left u"
  using assms
  by (simp add: handle_capital_sigma_def Let_def
      dropWhile_first_kept [where P = "is_case_ignorable db"] cong: list.case_cong)

lemma sigma_left:
  assumes "\<not> is_cased db 32" "\<not> is_case_ignorable db 32"
  shows "handle_capital_sigma db (l @ 32 # w) right = handle_capital_sigma db w right"
  using assms
  by (simp add: handle_capital_sigma_def Let_def
      dropWhile_first_kept [where P = "is_case_ignorable db"] cong: list.case_cong)

lemma do_title_before_space:
  assumes "\<not> is_cased db 32" "\<not> is_case_ignorable db 32"
  shows "do_title db b left (u @ 32 # v)
       = do_title db b left u
         @ do_title db (if u = [] then b else is_cased db (last u)) (left @ u) (32 # v)"
proof (induction u arbitrary: b left)
  case Nil
  show ?case by simp
next
  case (Cons c u)
  have "lower_ucs4 db left c (u @ 32 # v) = lower_ucs4 db left c u"
    by (simp add: lower_ucs4_def sigma_right [OF assms])
  with Cons.IH [of "is_cased db c" "left @ [c]"] show ?case by simp
qed

lemma do_title_after_space:
  assumes "\<not> is_cased db 32" "\<not> is_case_ignorable db 32"
  shows "do_title db b (l @ 32 # w) v = do_title db b w v"
proof (induction v arbitrary: b w)
  case Nil
  show ?case by simp
next
  case (Cons c v)
  have "lower_ucs4 db (l @ 32 # w) c v = lower_ucs4 db w c v"
    by (simp add: lower_ucs4_def sigma_left [OF assms])
  with Cons.IH [of "is_cased db c" "w @ [c]"] show ?case by simp
qed

lemma title_space:
  assumes "ascii_conform db"
  shows "title db (u @ 32 # v) = title db u @ 32 # title db v"
proof -
  note sp = ascii_conform_space [OF assms]
  have "do_title db b (u) (32 # v) = 32 # do_title db False (u @ [32]) v" for b
    using sp by (simp add: lower_ucs4_def)
  moreover have "do_title db False (u @ [32]) v = do_title db False [] v"
    using do_title_after_space [OF sp(1,2), of False u "[]" v] by simp
  ultimately show ?thesis
    using do_title_before_space [OF sp(1,2), of False "[]" u v] by (simp add: title_def)
qed

lemma split_first: "sep \<notin> set u \<Longrightarrow> split sep (u @ sep # v) = u # split sep v"
  by (simp add: split_def split_acc_sep split_acc_no_sep)

lemma split_not_Nil: "split sep s \<noteq> []"
proof (cases "sep \<in> set s")
  case True
  then obtain u v where "s = u @ sep # v" "sep \<notin> set u" by (auto dest: split_list_first)
  then show ?thesis by (simp add: split_first)
next
  case False
  then show ?thesis by (simp add: split_def split_acc_no_sep)
qed

lemma join_Cons: "ys \<noteq> [] \<Longrightarrow> join sep (x # ys) = x @ sep @ join sep ys"
  by (cases ys) simp_all

lemma title_words:
  assumes "ascii_conform db"
  shows "title db s = join [32] (map (title db) (split 32 s))"
proof (induction s rule: length_induct)
  case (1 s)
  show ?case
  proof (cases "32 \<in> set s")
    case False
    then show ?thesis by (simp add: split_def split_acc_no_sep)
  next
    case True
    then obtain u v where s: "s = u @ 32 # v" "32 \<notin> set u" by (auto dest: split_list_first)
    then have "length v < length s" by simp
    with 1 have "title db v = join [32] (map (title db) (split 32 v))" by blast
    with s show ?thesis
      by (simp add: title_space [OF assms] split_first join_Cons split_not_Nil)
  qed
qed

lemma rfind_last:
  "c \<notin> set ext \<Longrightarrow> rfind c (st @ c # ext) = Some (length st)"
proof -
  assume a: "c \<notin> set ext"
  have "takeWhile (\<lambda>x. x \<noteq> c) (rev ext @ c # rev st) = rev ext"
    using a by (auto simp: takeWhile_tail takeWhile_eq_all_conv)
  then show ?thesis by (simp add: rfind_def)
qed

lemma path_stem_ext:
  assumes "st \<noteq> []" "ext \<noteq> []" "46 \<notin> set ext" "47 \<notin> set st" "47 \<notin> set ext"
  shows "path_stem (dir @ [47] @ st @ [46] @ ext) = st"
proof -
  have "st @ [46] @ ext \<noteq> asc ''.''" using assms(1) by (cases st) (simp_all add: asc_def)
  with assms have "path_name (dir @ [47] @ (st @ [46] @ ext)) = st @ [46] @ ext"
    by (intro path_name_base) simp_all
  with assms(1,2) rfind_last [OF assms(3), of st] show ?thesis
    by (simp add: path_stem_def)
qed


lemma do_title_letters:
  "\<forall>x \<in> set cs. is_cased ascii_ucd x \<Longrightarrow>
     do_title ascii_ucd True left cs = concat (map (to_lower_full ascii_ucd) cs)"
proof (induction cs arbitrary: left)
  case Nil
  show ?case by simp
next
  case (Cons x cs)
  from Cons.prems have x: "is_cased ascii_ucd x" and cs: "\<forall>x \<in> set cs. is_cased ascii_ucd x"
    by auto
  from x have "x \<noteq> 931" by (auto simp: ascii_ucd_def)
  then have "lower_ucs4 ascii_ucd left x cs = to_lower_full ascii_ucd x"
    by (simp add: lower_ucs4_def)
  with x Cons.IH [OF cs] show ?case by simp
qed

lemma title_letters:
  assumes "ascii_conform db" "is_cased ascii_ucd c" "\<forall>x \<in> set cs. is_cased ascii_ucd x"
  shows "title db (c # cs) = to_title_full ascii_ucd c @ concat (map (to_lower_full ascii_ucd) cs)"
proof -
  from assms(2,3) have "\<forall>x \<in> set (c # cs). x < 128" by (auto simp: ascii_ucd_def)
  with assms(1) have "title db (c # cs) = title ascii_ucd (c # cs)" by (rule title_ascii)
  with assms(2) do_title_letters [OF assms(3)] show ?thesis by (simp add: title_def)
qed

lemma replace_underscores_none: "95 \<notin> set (replace_underscores s)"
  by (auto simp: replace_underscores_def)

section \<open>Facts about the loop over the files\<close>

lemma updatable_cases:
  "updatable w l \<longleftrightarrow> files w l = None \<or> (\<exists>c. files w l = Some (File c True))"
  by (auto simp: updatable_def split: option.splits node.splits)

lemma process_file_updatable:
  assumes "updatable w (resolve f)"
  shows "\<exists>w'. process_file db resolve dfs i f w = Inr w'
      \<and> stdout w' = stdout w @ [report_line w resolve f]
      \<and> (\<forall>l. l \<noteq> resolve f \<longrightarrow> files w' l = files w l)
      \<and> (files w (resolve f) = None \<longrightarrow> files w' (resolve f) = None)
      \<and> (\<forall>c. files w (resolve f) = Some (File c True) \<longrightarrow>
            files w' (resolve f)
              = Some (File (add_navigation_links db c (prev_of dfs i) (next_of dfs i)) True))"
proof (cases "files w (resolve f)")
  case None
  then show ?thesis
    by (simp add: process_file_def print_def report_line_def)
next
  case (Some nd)
  with assms obtain c where c: "files w (resolve f) = Some (File c True)"
    by (auto simp: updatable_cases)
  then show ?thesis
    by (simp add: process_file_def print_def report_line_def read_text_def write_text_def Let_def)
qed

lemma process_loop_updatable:
  assumes "\<forall>m \<in> set todo. updatable w (resolve (snd m))"
  shows "\<exists>w'. process_loop db resolve dfs todo w = Inr w'
      \<and> stdout w' = stdout w @ map (report_line w resolve) (map snd todo)
      \<and> (\<forall>l. (files w' l = None) = (files w l = None))
      \<and> (\<forall>l. l \<notin> resolve ` snd ` set todo \<longrightarrow> files w' l = files w l)
      \<and> (distinct (map (resolve \<circ> snd) todo) \<longrightarrow>
           (\<forall>i f c. (i, f) \<in> set todo \<and> files w (resolve f) = Some (File c True) \<longrightarrow>
              files w' (resolve f)
                = Some (File (add_navigation_links db c (prev_of dfs i) (next_of dfs i)) True)))"
  using assms
proof (induction todo arbitrary: w)
  case Nil
  show ?case by simp
next
  case (Cons m todo)
  obtain i f where m: "m = (i, f)" by (cases m)
  from Cons.prems m have uf: "updatable w (resolve f)" by simp
  from process_file_updatable [where resolve = resolve and f = f and w = w and db = db
      and dfs = dfs and i = i, OF uf] obtain w1
    where "process_file db resolve dfs i f w = Inr w1
      \<and> stdout w1 = stdout w @ [report_line w resolve f]
      \<and> (\<forall>l. l \<noteq> resolve f \<longrightarrow> files w1 l = files w l)
      \<and> (files w (resolve f) = None \<longrightarrow> files w1 (resolve f) = None)
      \<and> (\<forall>c. files w (resolve f) = Some (File c True) \<longrightarrow>
            files w1 (resolve f)
              = Some (File (add_navigation_links db c (prev_of dfs i) (next_of dfs i)) True))" ..
  then have w1: "process_file db resolve dfs i f w = Inr w1"
      "stdout w1 = stdout w @ [report_line w resolve f]"
      "\<forall>l. l \<noteq> resolve f \<longrightarrow> files w1 l = files w l"
      "files w (resolve f) = None \<longrightarrow> files w1 (resolve f) = None"
      "\<forall>c. files w (resolve f) = Some (File c True) \<longrightarrow>
            files w1 (resolve f)
              = Some (File (add_navigation_links db c (prev_of dfs i) (next_of dfs i)) True)"
    by simp_all
  have none: "(files w1 l = None) = (files w l = None)" for l
  proof (cases "l = resolve f")
    case True
    with uf w1(4,5) show ?thesis by (auto simp: updatable_cases)
  next
    case False
    with w1(3) show ?thesis by simp
  qed
  have upd: "updatable w1 l" if "updatable w l" for l
  proof (cases "l = resolve f")
    case True
    with that w1(4,5) show ?thesis by (auto simp: updatable_cases)
  next
    case False
    with that w1(3) show ?thesis by (simp add: updatable_def)
  qed
  have rl: "report_line w1 resolve g = report_line w resolve g" for g
    by (simp add: report_line_def none)
  from Cons.prems upd have "\<forall>m \<in> set todo. updatable w1 (resolve (snd m))" by simp
  from Cons.IH [OF this] obtain w'
    where "process_loop db resolve dfs todo w1 = Inr w'
      \<and> stdout w' = stdout w1 @ map (report_line w1 resolve) (map snd todo)
      \<and> (\<forall>l. (files w' l = None) = (files w1 l = None))
      \<and> (\<forall>l. l \<notin> resolve ` snd ` set todo \<longrightarrow> files w' l = files w1 l)
      \<and> (distinct (map (resolve \<circ> snd) todo) \<longrightarrow>
           (\<forall>i f c. (i, f) \<in> set todo \<and> files w1 (resolve f) = Some (File c True) \<longrightarrow>
              files w' (resolve f)
                = Some (File (add_navigation_links db c (prev_of dfs i) (next_of dfs i)) True)))" ..
  then have w': "process_loop db resolve dfs todo w1 = Inr w'"
      "stdout w' = stdout w1 @ map (report_line w1 resolve) (map snd todo)"
      "\<forall>l. (files w' l = None) = (files w1 l = None)"
      "\<forall>l. l \<notin> resolve ` snd ` set todo \<longrightarrow> files w' l = files w1 l"
      "distinct (map (resolve \<circ> snd) todo) \<longrightarrow>
           (\<forall>i f c. (i, f) \<in> set todo \<and> files w1 (resolve f) = Some (File c True) \<longrightarrow>
              files w' (resolve f)
                = Some (File (add_navigation_links db c (prev_of dfs i) (next_of dfs i)) True))"
    by simp_all
  have 1: "process_loop db resolve dfs (m # todo) w = Inr w'"
    using m w1(1) w'(1) by simp
  have 2: "stdout w' = stdout w @ map (report_line w resolve) (map snd (m # todo))"
    using m w1(2) w'(2) rl by simp
  have 3: "\<forall>l. (files w' l = None) = (files w l = None)"
    using w'(3) none by simp
  have 4: "\<forall>l. l \<notin> resolve ` snd ` set (m # todo) \<longrightarrow> files w' l = files w l"
    using m w'(4) w1(3) by auto
  have 5: "files w' (resolve g)
      = Some (File (add_navigation_links db c (prev_of dfs j) (next_of dfs j)) True)"
    if d: "distinct (map (resolve \<circ> snd) (m # todo))"
      and g: "(j, g) \<in> set (m # todo)" "files w (resolve g) = Some (File c True)" for j g c
  proof (cases "(j, g) = (i, f)")
    case True
    from d m have "resolve f \<notin> resolve ` snd ` set todo" by (auto simp: image_comp)
    with w'(4) have "files w' (resolve f) = files w1 (resolve f)" by blast
    with True g(2) w1(5) show ?thesis by simp
  next
    case False
    with g(1) m have in_todo: "(j, g) \<in> set todo" by auto
    with d m have "resolve g \<noteq> resolve f" by (force simp: image_comp)
    with w1(3) g(2) have "files w1 (resolve g) = Some (File c True)" by simp
    moreover from d have "distinct (map (resolve \<circ> snd) todo)" by simp
    ultimately show ?thesis using w'(5) in_todo by blast
  qed
  from 1 2 3 4 5 show ?case by blast
qed

lemma enumerate_list_snd: "map snd (enumerate_list xs) = xs"
  by (simp add: enumerate_list_def)

lemma enumerate_list_nth: "i < length xs \<Longrightarrow> (i, xs ! i) \<in> set (enumerate_list xs)"
  by (force simp: enumerate_list_def in_set_zip)

section \<open>Facts about deleting navigation lines\<close>

lemma line_end_found: "NL \<notin> set x \<Longrightarrow> lazy_dot line_end acc (x @ NL # r) = Some r"
  by (induction x arbitrary: acc) (auto simp: line_end_def lit_def)

lemma line_end_missing: "NL \<notin> set t \<Longrightarrow> lazy_dot line_end acc t = None"
  by (induction t arbitrary: acc) (auto simp: line_end_def lit_def)

lemma match_line_iff:
  "match_line mark s = Some rest \<longleftrightarrow> (\<exists>x. s = mark @ x @ NL # rest \<and> NL \<notin> set x)"
proof
  assume "match_line mark s = Some rest"
  then obtain s' where s': "s = mark @ s'" and l: "lazy_dot line_end [] s' = Some rest"
    by (auto simp: match_line_def lit_Some_iff split: option.splits)
  from lazy_dot_sound [OF l] obtain x t where "s' = x @ t" "NL \<notin> set x" "line_end ([] @ x) t = Some rest"
    by blast
  with s' show "\<exists>x. s = mark @ x @ NL # rest \<and> NL \<notin> set x"
    by (auto simp: line_end_def lit_Some_iff)
next
  assume "\<exists>x. s = mark @ x @ NL # rest \<and> NL \<notin> set x"
  then obtain x where "s = mark @ x @ NL # rest" "NL \<notin> set x" by blast
  then show "match_line mark s = Some rest"
    by (simp add: match_line_def lit_def starts_with_iff line_end_found)
qed

lemma match_line_None_iff:
  "match_line mark s = None \<longleftrightarrow> \<not> segment_start [mark] s"
proof -
  have "segment_start [mark] s \<longleftrightarrow> (\<exists>rest x. s = mark @ x @ NL # rest \<and> NL \<notin> set x)"
  proof
    assume "segment_start [mark] s"
    then obtain r where r: "s = mark @ r" "NL \<in> set r"
      by (auto simp: segment_start_def starts_with_iff)
    from split_list_first [OF r(2)] obtain x rest where "r = x @ NL # rest" "NL \<notin> set x" by blast
    with r(1) show "\<exists>rest x. s = mark @ x @ NL # rest \<and> NL \<notin> set x" by blast
  next
    assume "\<exists>rest x. s = mark @ x @ NL # rest \<and> NL \<notin> set x"
    then show "segment_start [mark] s"
      by (auto simp: segment_start_def starts_with_iff)
  qed
  then have seg: "segment_start [mark] s \<longleftrightarrow> (\<exists>rest. match_line mark s = Some rest)"
    by (simp add: match_line_iff)
  show ?thesis unfolding seg by (cases "match_line mark s") simp_all
qed

lemma delete_marked_skip:
  "NL \<notin> set x \<Longrightarrow> delete_marked marks True (x @ NL # r) = delete_marked marks False r"
  by (induction x) auto

declare re_sub.simps [simp del]

lemma re_sub_is_delete_marked:
  "mark \<noteq> [] \<Longrightarrow> NL \<notin> set mark \<Longrightarrow> re_sub mark s = delete_marked [mark] False s"
proof (induction mark s rule: re_sub.induct)
  case (1 mark s)
  show ?case
  proof (cases "match_line mark s")
    case None
    then have ns: "\<not> segment_start [mark] s" by (simp add: match_line_None_iff)
    show ?thesis
    proof (cases s)
      case Nil
      with None show ?thesis by (subst re_sub.simps) simp
    next
      case (Cons c cs)
      from "1.IH"(1) [OF None Cons "1.prems"] have "re_sub mark cs = delete_marked [mark] False cs" .
      with None Cons ns show ?thesis by (subst re_sub.simps) simp
    qed
  next
    case (Some rest)
    then obtain x where s: "s = mark @ x @ NL # rest" "NL \<notin> set x"
      by (auto simp: match_line_iff)
    from Some have seg: "segment_start [mark] s"
      using match_line_None_iff [of mark s] by simp
    from "1.prems" obtain m ms where m: "mark = m # ms" "m \<noteq> NL" "NL \<notin> set ms"
      by (cases mark) auto
    from "1.IH"(2) [OF Some "1.prems"] have ih: "re_sub mark rest = delete_marked [mark] False rest" .
    have "delete_marked [mark] False s = delete_marked [mark] True ((ms @ x) @ NL # rest)"
      using seg m s by simp
    also have "\<dots> = delete_marked [mark] False rest"
      using m(3) s(2) by (intro delete_marked_skip) simp
    finally show ?thesis using Some ih by (subst re_sub.simps) simp
  qed
qed


lemma starts_with_before_newline:
  "NL \<notin> set mark \<Longrightarrow> starts_with mark (w @ NL # z) \<Longrightarrow> starts_with mark w"
proof (induction mark arbitrary: w)
  case Nil
  show ?case by simp
next
  case (Cons m ms)
  then show ?case by (cases w) auto
qed

lemma contains_iff: "contains p s \<longleftrightarrow> (\<exists>u v. s = u @ p @ v)"
proof (induction s)
  case Nil
  show ?case by (cases p) auto
next
  case (Cons c s)
  show ?case
  proof
    assume "contains p (c # s)"
    then consider "starts_with p (c # s)" | "contains p s" by auto
    then show "\<exists>u v. c # s = u @ p @ v"
    proof cases
      case 1
      then obtain r where "c # s = [] @ p @ r" by (auto simp: starts_with_iff)
      then show ?thesis by blast
    next
      case 2
      with Cons.IH obtain u v where "s = u @ p @ v" by blast
      then have "c # s = (c # u) @ p @ v" by simp
      then show ?thesis by blast
    qed
  next
    assume "\<exists>u v. c # s = u @ p @ v"
    then obtain u v where uv: "c # s = u @ p @ v" by blast
    show "contains p (c # s)"
    proof (cases u)
      case Nil
      with uv have "starts_with p (c # s)" by (auto simp: starts_with_iff)
      then show ?thesis by simp
    next
      case (Cons a u')
      with uv have "s = u' @ p @ v" by simp
      with Cons.IH show ?thesis by auto
    qed
  qed
qed

lemma delete_marked_keep:
  assumes "mark \<noteq> []" "NL \<notin> set mark"
  shows "\<not> contains mark u \<Longrightarrow>
    delete_marked [mark] False (u @ NL # v) = u @ NL # delete_marked [mark] False v"
proof (induction u)
  case Nil
  from assms have "\<not> starts_with mark (NL # v)" by (cases mark) auto
  then show ?case by (simp add: segment_start_def)
next
  case (Cons c u)
  from Cons.prems have n: "\<not> starts_with mark (c # u)" and nc: "\<not> contains mark u" by auto
  from n have "\<not> starts_with mark ((c # u) @ NL # v)"
    using starts_with_before_newline [OF assms(2)] by blast
  then have "\<not> segment_start [mark] (c # u @ NL # v)" by (simp add: segment_start_def)
  with Cons.IH [OF nc] show ?case by simp
qed

lemma delete_marked_line:
  assumes "mark \<noteq> []" "NL \<notin> set mark" "NL \<notin> set x"
  shows "delete_marked [mark] False (mark @ x @ NL # v) = delete_marked [mark] False v"
proof -
  from assms obtain m ms where m: "mark = m # ms" "m \<noteq> NL" "NL \<notin> set ms"
    by (cases mark) auto
  have "segment_start [mark] (mark @ x @ NL # v)"
    by (simp add: segment_start_def starts_with_iff)
  then have "delete_marked [mark] False (mark @ x @ NL # v)
      = delete_marked [mark] True ((ms @ x) @ NL # v)"
    using m by simp
  also have "\<dots> = delete_marked [mark] False v"
    using m(3) assms(3) by (intro delete_marked_skip) simp
  finally show ?thesis .
qed

lemma delete_marked_none:
  "\<not> has_segment marks s \<Longrightarrow> delete_marked marks False s = s"
  by (induction s) auto

lemma has_segment_contains:
  "has_segment [mark] s \<Longrightarrow> contains mark s"
  by (induction s) (auto simp: segment_start_def)

text \<open>The text \<open>R1\<close> that the injector produces, run through one deletion pass.\<close>

lemma delete_own_navigation:
  assumes "mark \<noteq> []" "NL \<notin> set mark" "NL \<notin> set x" "\<not> contains mark b"
  shows "delete_marked [mark] False
           ([NL] @ (mark @ x) @ [NL, NL] @ b @ [NL, NL] @ (mark @ x) @ [NL, NL])
         = [NL, NL] @ b @ [NL, NL, NL]"
proof -
  note keep = delete_marked_keep [OF assms(1,2)]
  note line = delete_marked_line [OF assms(1,2,3)]
  have e: "\<not> contains mark []" using assms(1) by (cases mark) auto
  have "delete_marked [mark] False
           ([NL] @ (mark @ x) @ [NL, NL] @ b @ [NL, NL] @ (mark @ x) @ [NL, NL])
      = delete_marked [mark] False
           ([] @ NL # (mark @ x @ NL # ([] @ NL # (b @ NL # ([] @ NL # (mark @ x @ NL # ([] @ NL # [])))))))"
    by simp
  also have "\<dots> = [] @ NL # ([] @ NL # (b @ NL # ([] @ NL # ([] @ NL # delete_marked [mark] False []))))"
    by (simp only: keep [OF e] keep [OF assms(4)] line)
  finally show ?thesis by simp
qed

lemma delete_foreign_navigation:
  assumes "mark \<noteq> []" "NL \<notin> set mark" "\<not> contains mark nav" "\<not> contains mark b"
  shows "delete_marked [mark] False
           ([NL] @ nav @ [NL, NL] @ b @ [NL, NL] @ nav @ [NL, NL])
         = [NL] @ nav @ [NL, NL] @ b @ [NL, NL] @ nav @ [NL, NL]"
proof -
  note keep = delete_marked_keep [OF assms(1,2)]
  have e: "\<not> contains mark []" using assms(1) by (cases mark) auto
  have "delete_marked [mark] False
           ([NL] @ nav @ [NL, NL] @ b @ [NL, NL] @ nav @ [NL, NL])
      = delete_marked [mark] False
           ([] @ NL # (nav @ NL # ([] @ NL # (b @ NL # ([] @ NL # (nav @ NL # ([] @ NL # [])))))))"
    by simp
  also have "\<dots> = [] @ NL # (nav @ NL # ([] @ NL # (b @ NL # ([] @ NL # (nav @ NL # ([] @ NL # delete_marked [mark] False []))))))"
    by (simp only: keep [OF e] keep [OF assms(4)] keep [OF assms(3)])
  finally show ?thesis by simp
qed

lemma delete_padded_body:
  assumes "mark \<noteq> []" "NL \<notin> set mark" "\<not> contains mark b"
  shows "delete_marked [mark] False ([NL, NL] @ b @ [NL, NL, NL]) = [NL, NL] @ b @ [NL, NL, NL]"
proof -
  note keep = delete_marked_keep [OF assms(1,2)]
  have e: "\<not> contains mark []" using assms(1) by (cases mark) auto
  have "delete_marked [mark] False ([NL, NL] @ b @ [NL, NL, NL])
      = delete_marked [mark] False ([] @ NL # ([] @ NL # (b @ NL # ([] @ NL # ([] @ NL # [])))))"
    by simp
  also have "\<dots> = [] @ NL # ([] @ NL # (b @ NL # ([] @ NL # ([] @ NL # delete_marked [mark] False []))))"
    by (simp only: keep [OF e] keep [OF assms(3)])
  finally show ?thesis by simp
qed


lemma marks_plain:
  "PREV_MARK \<noteq> []" "NL \<notin> set PREV_MARK" "NEXT_MARK \<noteq> []" "NL \<notin> set NEXT_MARK"
  by (simp_all add: PREV_MARK_def NEXT_MARK_def asc_def NL_def LARROW_def)

lemma is_whitespace_NL: "is_whitespace NL"
  by (simp add: is_whitespace_def NL_def)

lemma join_starts: "join sep (x # xs) = x @ (if xs = [] then [] else sep @ join sep xs)"
  by (cases xs) simp_all

lemma nav_text_starts_prev:
  "truthy prev \<Longrightarrow> \<exists>x. nav_text db prev next = PREV_MARK @ x"
  by (cases prev)
    (auto simp: nav_text_def navigation_def join_starts prev_entry_def PREV_MARK_def asc_def Let_def)

lemma nav_text_starts_next:
  "\<not> truthy prev \<Longrightarrow> truthy next \<Longrightarrow> \<exists>x. nav_text db prev next = NEXT_MARK @ x"
  by (cases prev; cases "next")
    (auto simp: nav_text_def navigation_def next_entry_def NEXT_MARK_def asc_def Let_def)

lemma contains_tail: "contains (u @ p) s \<Longrightarrow> contains p s"
  unfolding contains_iff by (metis append.assoc)

lemma has_navigation_own:
  assumes "nav = PREV_MARK @ x \<or> nav = NEXT_MARK @ x"
  shows "has_navigation ([NL] @ nav @ rest)"
proof -
  have p: "PREV_MARK = asc ''['' @ ([LARROW] @ asc '' Previous:'')"
    and n: "NEXT_MARK = asc ''['' @ asc ''Next:''"
    by (simp_all add: PREV_MARK_def NEXT_MARK_def asc_def)
  from assms show ?thesis
  proof
    assume "nav = PREV_MARK @ x"
    then have "[NL] @ nav @ rest = ([NL] @ asc ''['') @ ([LARROW] @ asc '' Previous:'') @ (x @ rest)"
      by (simp add: p)
    then have "contains ([LARROW] @ asc '' Previous:'') ([NL] @ nav @ rest)"
      unfolding contains_iff by blast
    then show ?thesis by (simp add: has_navigation_def)
  next
    assume "nav = NEXT_MARK @ x"
    then have "[NL] @ nav @ rest = ([NL] @ asc ''['') @ asc ''Next:'' @ (x @ rest)"
      by (simp add: n)
    then have "contains (asc ''Next:'') ([NL] @ nav @ rest)"
      unfolding contains_iff by blast
    then show ?thesis by (simp add: has_navigation_def)
  qed
qed

lemma strip_own_output:
  assumes nl: "NL \<notin> set (nav_text db prev next)"
    and fp: "\<not> truthy prev \<longrightarrow> \<not> contains PREV_MARK (nav_text db prev next)"
    and bp: "\<not> contains PREV_MARK b" and bn: "\<not> contains NEXT_MARK b"
    and t: "truthy prev \<or> truthy next"
  shows "strip_navigation
           ([NL] @ nav_text db prev next @ [NL, NL] @ b @ [NL, NL] @ nav_text db prev next @ [NL, NL])
         = [NL, NL] @ b @ [NL, NL, NL]"
proof -
  define nav where "nav = nav_text db prev next"
  define r1 where "r1 = [NL] @ nav @ [NL, NL] @ b @ [NL, NL] @ nav @ [NL, NL]"
  note rs = re_sub_is_delete_marked [OF marks_plain(1,2)] re_sub_is_delete_marked [OF marks_plain(3,4)]
  have del: "re_sub NEXT_MARK (re_sub PREV_MARK r1) = [NL, NL] @ b @ [NL, NL, NL]"
    and own: "\<exists>x. nav = PREV_MARK @ x \<or> nav = NEXT_MARK @ x"
  proof -
    show "re_sub NEXT_MARK (re_sub PREV_MARK r1) = [NL, NL] @ b @ [NL, NL, NL]"
    proof (cases "truthy prev")
      case True
      from nav_text_starts_prev [OF True] obtain x where x: "nav = PREV_MARK @ x"
        unfolding nav_def by blast
      with nl have "NL \<notin> set x" by (simp add: nav_def)
      from delete_own_navigation [OF marks_plain(1,2) this bp]
      have "re_sub PREV_MARK r1 = [NL, NL] @ b @ [NL, NL, NL]"
        by (simp add: rs r1_def x)
      then show ?thesis
        using delete_padded_body [OF marks_plain(3,4) bn] by (simp add: rs)
    next
      case False
      with t have tn: "truthy next" by simp
      from nav_text_starts_next [OF False tn] obtain x where x: "nav = NEXT_MARK @ x"
        unfolding nav_def by blast
      with nl have nx: "NL \<notin> set x" by (simp add: nav_def)
      from False fp have "\<not> contains PREV_MARK nav" by (simp add: nav_def)
      from delete_foreign_navigation [OF marks_plain(1,2) this bp]
      have "re_sub PREV_MARK r1 = r1" by (simp add: rs r1_def)
      then show ?thesis
        using delete_own_navigation [OF marks_plain(3,4) nx bn] by (simp add: rs r1_def x)
    qed
    show "\<exists>x. nav = PREV_MARK @ x \<or> nav = NEXT_MARK @ x"
      using nav_text_starts_prev [of prev db "next"] nav_text_starts_next [of prev "next" db] t
      unfolding nav_def by blast
  qed
  from own obtain x where "nav = PREV_MARK @ x \<or> nav = NEXT_MARK @ x" ..
  from has_navigation_own [OF this] have "has_navigation r1" by (simp add: r1_def)
  with del show ?thesis by (simp add: strip_navigation_def r1_def nav_def)
qed

lemma has_segment_two:
  "has_segment [a, b] s \<longleftrightarrow> has_segment [a] s \<or> has_segment [b] s"
  by (induction s) (auto simp: segment_start_def)

lemma delete_marked_second:
  "\<not> has_segment [a] s \<Longrightarrow> delete_marked [a, b] skipping s = delete_marked [b] skipping s"
  by (induction s arbitrary: skipping) (auto simp: segment_start_def)

lemma no_navigation_no_segment:
  assumes "\<not> has_navigation s"
  shows "\<not> has_segment [PREV_MARK] s" "\<not> has_segment [NEXT_MARK] s"
proof -
  have p: "PREV_MARK = asc ''['' @ ([LARROW] @ asc '' Previous:'')"
    and n: "NEXT_MARK = asc ''['' @ asc ''Next:''"
    by (simp_all add: PREV_MARK_def NEXT_MARK_def asc_def)
  from assms have "\<not> contains PREV_MARK s" "\<not> contains NEXT_MARK s"
    unfolding has_navigation_def p n using contains_tail by blast+
  then show "\<not> has_segment [PREV_MARK] s" "\<not> has_segment [NEXT_MARK] s"
    using has_segment_contains by blast+
qed

lemma strip_navigation_two_passes:
  "strip_navigation s = delete_marked [NEXT_MARK] False (delete_marked [PREV_MARK] False s)"
proof (cases "has_navigation s")
  case True
  then show ?thesis
    by (simp add: strip_navigation_def re_sub_is_delete_marked marks_plain)
next
  case False
  from no_navigation_no_segment [OF this] False show ?thesis
    by (simp add: strip_navigation_def delete_marked_none)
qed

section \<open>The link extractor\<close>

text \<open>
  C2. For every index text the extractor returns a list without duplicates, made of
  exactly the targets that \<open>finditer\<close> matched; the matches come with strictly increasing
  offsets in the text, and along the returned list the offset of the first match of
  each path increases strictly: the paths stand in the order in which they first
  occur in the text.
\<close>

theorem extract_distinct_first_seen:
  "distinct (extract_doc_links_from_readme s)
   \<and> set (extract_doc_links_from_readme s) = snd ` set (finditer 0 s)
   \<and> sorted_wrt (<) (map fst (finditer 0 s))
   \<and> (\<exists>ps. map (first_offset (finditer 0 s)) (extract_doc_links_from_readme s) = map Some ps
          \<and> sorted_wrt (<) ps)"
proof -
  have srt: "sorted_wrt (<) (map fst (finditer 0 s))"
    using finditer_offsets [of 0 s] by simp
  from foldl_add_key_order [OF srt, of "[]"]
  have "\<exists>ps. map (first_offset (finditer 0 s)) (extract_doc_links_from_readme s) = map Some ps
          \<and> sorted_wrt (<) ps"
    by (auto simp: extract_doc_links_from_readme_def fromkeys_def findall_def)
  moreover have "distinct (extract_doc_links_from_readme s)"
    by (simp add: extract_doc_links_from_readme_def fromkeys_def foldl_add_key_distinct)
  moreover have "set (extract_doc_links_from_readme s) = snd ` set (finditer 0 s)"
    by (simp add: extract_doc_links_from_readme_def fromkeys_def foldl_add_key_set findall_def)
  ultimately show ?thesis using srt by blast
qed

text \<open>
  C7. The extractor returns the empty list exactly for the texts in which no link of
  the documentation pattern occurs; it is a total function, so text that does not
  match is passed over and nothing is raised.
\<close>

theorem extract_empty_iff_no_link:
  "extract_doc_links_from_readme s = [] \<longleftrightarrow> \<not> has_doc_link s"
  by (simp add: extract_doc_links_from_readme_def fromkeys_Nil_iff findall_def finditer_empty_iff)

theorem extract_empty_iff_no_link_witness:
  "\<not> has_doc_link (asc ''see [a](doc/a.md) and [b](docs/b.txt)'')
   \<and> extract_doc_links_from_readme (asc ''see [a](doc/a.md) and [b](docs/b.txt)'') = []"
proof -
  have "extract_doc_links_from_readme (asc ''see [a](doc/a.md) and [b](docs/b.txt)'') = []"
    by code_simp
  with extract_empty_iff_no_link [of "asc ''see [a](doc/a.md) and [b](docs/b.txt)''"]
  show ?thesis by simp
qed

text \<open>
  C8. Every path that the extractor returns is the target of a markdown link
  \<open>[label](path)\<close> that occurs in the text, and the path begins with \<open>docs/\<close> and ends
  with \<open>.md\<close>. The first offset of the path is a place where such a link stands.
\<close>

theorem extract_paths_are_doc_links:
  assumes "p \<in> set (extract_doc_links_from_readme s)"
  shows "\<exists>pre label y post. s = pre @ md_link label p @ post \<and> p = doc_target y
           \<and> NL \<notin> set label \<and> NL \<notin> set y
           \<and> starts_with (asc ''docs/'') p \<and> ends_with (asc ''.md'') p
           \<and> first_offset (finditer 0 s) p = Some (length pre)"
proof -
  from assms have "p \<in> snd ` set (finditer 0 s)"
    by (simp add: extract_doc_links_from_readme_def fromkeys_def foldl_add_key_set findall_def)
  from first_offset_in [OF this] obtain n
    where n: "first_offset (finditer 0 s) p = Some n" "(n, p) \<in> set (finditer 0 s)" by blast
  from finditer_occurs [OF n(2)] obtain pre label y post
    where *: "s = pre @ md_link label p @ post" "p = doc_target y"
      "NL \<notin> set label" "NL \<notin> set y" "n = length pre" by auto
  from *(2) have "starts_with (asc ''docs/'') p" "ends_with (asc ''.md'') p"
    by (simp_all add: starts_with_iff ends_with_def doc_target_def)
  with * n(1) show ?thesis by blast
qed

theorem extract_paths_are_doc_links_witness:
  "asc ''docs/a.md'' \<in> set (extract_doc_links_from_readme (asc ''# Index [A](docs/a.md)''))
   \<and> (\<exists>pre label y post.
         asc ''# Index [A](docs/a.md)'' = pre @ md_link label (asc ''docs/a.md'') @ post
         \<and> asc ''docs/a.md'' = doc_target y \<and> NL \<notin> set label \<and> NL \<notin> set y
         \<and> starts_with (asc ''docs/'') (asc ''docs/a.md'')
         \<and> ends_with (asc ''.md'') (asc ''docs/a.md'')
         \<and> first_offset (finditer 0 (asc ''# Index [A](docs/a.md)'')) (asc ''docs/a.md'')
             = Some (length pre))"
proof -
  have m: "asc ''docs/a.md'' \<in> set (extract_doc_links_from_readme (asc ''# Index [A](docs/a.md)''))"
    by code_simp
  from extract_paths_are_doc_links [OF m] m show ?thesis by blast
qed

section \<open>The navigation injector: boundaries\<close>

text \<open>
  C3. Without a previous and without a next file (\<open>None\<close>, or the empty string, which
  Python takes as false) the content is returned as it is; the only file of a list of
  one has neither neighbour. With only a previous file the navigation line is the
  "Previous" link and nothing else, with only a next file it is the "Next" link and
  nothing else, and that line is what is put around the body.
\<close>

theorem navigation_boundaries:
  "(\<not> truthy prev \<longrightarrow> \<not> truthy next \<longrightarrow> add_navigation_links db content prev next = content)
   \<and> add_navigation_links db content None None = content
   \<and> prev_of [f] 0 = None \<and> next_of [f] 0 = None
   \<and> (p \<noteq> [] \<longrightarrow>
        nav_text db (Some p) None = prev_entry db p
        \<and> add_navigation_links db content (Some p) None
            = [NL] @ prev_entry db p @ [NL, NL] @ strip (strip_navigation content)
              @ [NL, NL] @ prev_entry db p @ [NL, NL])
   \<and> (n \<noteq> [] \<longrightarrow>
        nav_text db None (Some n) = next_entry db n
        \<and> add_navigation_links db content None (Some n)
            = [NL] @ next_entry db n @ [NL, NL] @ strip (strip_navigation content)
              @ [NL, NL] @ next_entry db n @ [NL, NL])"
proof -
  have "add_navigation_links db content prev next = content" if "\<not> truthy prev" "\<not> truthy next"
    using that nav_some_truthy [of prev "next" db] by (simp add: add_navigation_links_def)
  moreover have "add_navigation_links db content None None = content"
    by (simp add: add_navigation_links_def navigation_def)
  moreover have "prev_of [f] 0 = None" "next_of [f] 0 = None"
    by (simp_all add: prev_of_def next_of_def)
  moreover have "nav_text db (Some p) None = prev_entry db p" if "p \<noteq> []"
    using that by (simp add: nav_text_def navigation_def)
  moreover have "nav_text db None (Some n) = next_entry db n" if "n \<noteq> []"
    using that by (simp add: nav_text_def navigation_def)
  moreover have "add_navigation_links db content (Some p) None
      = [NL] @ nav_text db (Some p) None @ [NL, NL] @ strip (strip_navigation content)
        @ [NL, NL] @ nav_text db (Some p) None @ [NL, NL]" if "p \<noteq> []"
    using that by (intro add_navigation_links_layout) (simp add: navigation_def)
  moreover have "add_navigation_links db content None (Some n)
      = [NL] @ nav_text db None (Some n) @ [NL, NL] @ strip (strip_navigation content)
        @ [NL, NL] @ nav_text db None (Some n) @ [NL, NL]" if "n \<noteq> []"
    using that by (intro add_navigation_links_layout) (simp add: navigation_def)
  ultimately show ?thesis by simp
qed

theorem navigation_boundaries_witness:
  "add_navigation_links ascii_ucd (asc ''text'') (Some []) None = asc ''text''
   \<and> prev_of [asc ''docs/a.md''] 0 = None \<and> next_of [asc ''docs/a.md''] 0 = None
   \<and> nav_text ascii_ucd (Some (asc ''docs/a.md'')) None
       = asc ''['' @ [LARROW] @ asc '' Previous: A](a.md)''
   \<and> add_navigation_links ascii_ucd (asc ''text'') (Some (asc ''docs/a.md'')) None
       = [NL] @ asc ''['' @ [LARROW] @ asc '' Previous: A](a.md)'' @ [NL, NL] @ asc ''text''
         @ [NL, NL] @ asc ''['' @ [LARROW] @ asc '' Previous: A](a.md)'' @ [NL, NL]
   \<and> nav_text ascii_ucd None (Some (asc ''docs/c.md''))
       = asc ''[Next: C '' @ [RARROW] @ asc ''](c.md)''
   \<and> add_navigation_links ascii_ucd (asc ''text'') None (Some (asc ''docs/c.md''))
       = [NL] @ asc ''[Next: C '' @ [RARROW] @ asc ''](c.md)'' @ [NL, NL] @ asc ''text''
         @ [NL, NL] @ asc ''[Next: C '' @ [RARROW] @ asc ''](c.md)'' @ [NL, NL]"
proof -
  have p: "prev_entry ascii_ucd (asc ''docs/a.md'') = asc ''['' @ [LARROW] @ asc '' Previous: A](a.md)''"
    by code_simp
  have n: "next_entry ascii_ucd (asc ''docs/c.md'') = asc ''[Next: C '' @ [RARROW] @ asc ''](c.md)''"
    by code_simp
  have s: "strip (strip_navigation (asc ''text'')) = asc ''text''"
    by code_simp
  have t: "\<not> truthy (Some [])" "\<not> truthy None" "asc ''docs/a.md'' \<noteq> []" "asc ''docs/c.md'' \<noteq> []"
    by (simp_all add: asc_def)
  from navigation_boundaries [of "Some []" None ascii_ucd "asc ''text''" "asc ''docs/a.md''"
      "asc ''docs/a.md''" "asc ''docs/c.md''"] t
  show ?thesis by (simp only: p n s) simp
qed

section \<open>The navigation injector: layout of the output\<close>

text \<open>
  C5. When a previous or a next file is given, the output is an empty line, the
  navigation line, an empty line, the body with the whitespace at its two ends
  removed, an empty line, the same navigation line and an empty line. The navigation
  line is the links that are present joined with \<open>" | "\<close>. The body is the content
  without its old navigation lines, and the content itself when it has none.
\<close>

theorem injector_layout:
  assumes "truthy prev \<or> truthy next"
  shows "add_navigation_links db content prev next
           = [NL] @ nav_text db prev next @ [NL, NL] @ strip (strip_navigation content)
             @ [NL, NL] @ nav_text db prev next @ [NL, NL]
         \<and> nav_text db prev next
             = join (asc '' | '') (entry_if (prev_entry db) prev @ entry_if (next_entry db) next)
         \<and> (\<forall>p n. prev = Some p \<and> next = Some n \<and> p \<noteq> [] \<and> n \<noteq> [] \<longrightarrow>
               nav_text db prev next = prev_entry db p @ asc '' | '' @ next_entry db n)
         \<and> (strip (strip_navigation content) = []
              \<or> (\<not> is_whitespace (hd (strip (strip_navigation content)))
                  \<and> \<not> is_whitespace (last (strip (strip_navigation content)))))
         \<and> (\<not> has_navigation content \<longrightarrow> strip_navigation content = content)"
proof -
  from assms have "navigation db prev next \<noteq> []"
    using nav_some_truthy [of prev "next" db] by blast
  then have "add_navigation_links db content prev next
           = [NL] @ nav_text db prev next @ [NL, NL] @ strip (strip_navigation content)
             @ [NL, NL] @ nav_text db prev next @ [NL, NL]"
    by (rule add_navigation_links_layout)
  moreover have "nav_text db prev next
      = join (asc '' | '') (entry_if (prev_entry db) prev @ entry_if (next_entry db) next)"
    by (simp add: nav_text_def navigation_def)
  moreover have "\<forall>p n. prev = Some p \<and> next = Some n \<and> p \<noteq> [] \<and> n \<noteq> [] \<longrightarrow>
               nav_text db prev next = prev_entry db p @ asc '' | '' @ next_entry db n"
    by (simp add: nav_text_def navigation_def)
  moreover have "\<not> has_navigation content \<longrightarrow> strip_navigation content = content"
    by (simp add: strip_navigation_def)
  ultimately show ?thesis using strip_ends [of "strip_navigation content"] by blast
qed

theorem injector_layout_witness:
  "truthy (Some (asc ''docs/a.md''))
   \<and> add_navigation_links ascii_ucd (asc ''  # B'' @ [NL] @ asc ''text '' @ [NL])
         (Some (asc ''docs/a.md'')) (Some (asc ''docs/c.md''))
       = [NL] @ asc ''['' @ [LARROW] @ asc '' Previous: A](a.md) | [Next: C '' @ [RARROW] @ asc ''](c.md)''
         @ [NL, NL] @ asc ''# B'' @ [NL] @ asc ''text'' @ [NL, NL]
         @ asc ''['' @ [LARROW] @ asc '' Previous: A](a.md) | [Next: C '' @ [RARROW] @ asc ''](c.md)''
         @ [NL, NL]"
proof -
  have t: "truthy (Some (asc ''docs/a.md'')) \<or> truthy (Some (asc ''docs/c.md''))"
    by (simp add: asc_def)
  have n: "nav_text ascii_ucd (Some (asc ''docs/a.md'')) (Some (asc ''docs/c.md''))
      = asc ''['' @ [LARROW] @ asc '' Previous: A](a.md) | [Next: C '' @ [RARROW] @ asc ''](c.md)''"
    by code_simp
  have s: "strip (strip_navigation (asc ''  # B'' @ [NL] @ asc ''text '' @ [NL]))
      = asc ''# B'' @ [NL] @ asc ''text''"
    by code_simp
  have e: "add_navigation_links ascii_ucd (asc ''  # B'' @ [NL] @ asc ''text '' @ [NL])
         (Some (asc ''docs/a.md'')) (Some (asc ''docs/c.md''))
       = [NL] @ nav_text ascii_ucd (Some (asc ''docs/a.md'')) (Some (asc ''docs/c.md''))
         @ [NL, NL] @ strip (strip_navigation (asc ''  # B'' @ [NL] @ asc ''text '' @ [NL]))
         @ [NL, NL] @ nav_text ascii_ucd (Some (asc ''docs/a.md'')) (Some (asc ''docs/c.md''))
         @ [NL, NL]"
    using injector_layout [OF t, of ascii_ucd "asc ''  # B'' @ [NL] @ asc ''text '' @ [NL]"]
    by blast
  show ?thesis unfolding e n s by (simp add: asc_def)
qed

section \<open>The navigation injector: link targets\<close>

text \<open>
  C9. The target of a link of the navigation line is \<open>get_relative_link\<close> of the
  neighbour: the last component of the path, which holds no slash. For a path made of
  a directory part, a slash and a base name, it is the base name; \<open>docs/a.md\<close> gives
  \<open>a.md\<close>.
\<close>

theorem link_target_is_base_name:
  "prev_entry db f = asc ''['' @ [LARROW] @ asc '' Previous: '' @ derive_title db f
       @ asc '']('' @ get_relative_link f @ asc '')''
   \<and> next_entry db f = asc ''[Next: '' @ derive_title db f @ asc '' '' @ [RARROW]
       @ asc '']('' @ get_relative_link f @ asc '')''
   \<and> 47 \<notin> set (get_relative_link f)
   \<and> (base \<noteq> [] \<longrightarrow> base \<noteq> asc ''.'' \<longrightarrow> 47 \<notin> set base \<longrightarrow>
        get_relative_link (dir @ asc ''/'' @ base) = base)
   \<and> get_relative_link (asc ''docs/a.md'') = asc ''a.md''"
proof -
  have "get_relative_link (dir @ asc ''/'' @ base) = base"
    if "base \<noteq> []" "base \<noteq> asc ''.''" "47 \<notin> set base"
    using path_name_base [OF that, of dir] by (simp add: get_relative_link_def asc_def)
  moreover have "get_relative_link (asc ''docs/a.md'') = asc ''a.md''"
    by code_simp
  moreover have "47 \<notin> set (get_relative_link f)"
    by (simp add: get_relative_link_def path_name_no_slash)
  ultimately show ?thesis
    by (simp add: prev_entry_def next_entry_def)
qed

theorem link_target_is_base_name_witness:
  "asc ''my_file.md'' \<noteq> [] \<and> asc ''my_file.md'' \<noteq> asc ''.'' \<and> 47 \<notin> set (asc ''my_file.md'')
   \<and> get_relative_link (asc ''../docs'' @ asc ''/'' @ asc ''my_file.md'') = asc ''my_file.md''
   \<and> next_entry ascii_ucd (asc ''../docs/my_file.md'')
       = asc ''[Next: My File '' @ [RARROW] @ asc ''](my_file.md)''"
proof -
  have h: "asc ''my_file.md'' \<noteq> []" "asc ''my_file.md'' \<noteq> asc ''.''" "47 \<notin> set (asc ''my_file.md'')"
    by (simp_all add: asc_def)
  have d: "derive_title ascii_ucd (asc ''../docs/my_file.md'') = asc ''My File''"
    by code_simp
  have a: "asc ''../docs/my_file.md'' = asc ''../docs'' @ asc ''/'' @ asc ''my_file.md''"
    by (simp add: asc_def)
  from link_target_is_base_name [of ascii_ucd "asc ''../docs/my_file.md''" "asc ''my_file.md''"
      "asc ''../docs''"] h
  have "get_relative_link (asc ''../docs'' @ asc ''/'' @ asc ''my_file.md'') = asc ''my_file.md''"
    and "next_entry ascii_ucd (asc ''../docs/my_file.md'')
       = asc ''[Next: '' @ derive_title ascii_ucd (asc ''../docs/my_file.md'') @ asc '' '' @ [RARROW]
         @ asc '']('' @ get_relative_link (asc ''../docs/my_file.md'') @ asc '')''"
    by blast+
  with h show ?thesis unfolding d by (simp add: a) (simp add: asc_def)
qed

section \<open>The navigation injector: titles\<close>

text \<open>
  C6. The title of a navigation label is made from the stem of the file's name: the
  name without its directories and without its extension. The underscores of the stem
  are replaced by spaces and the result is title-cased; this is the same as
  title-casing each of the words between the spaces on its own, and a word of ASCII
  letters gets its first letter in upper case and the others in lower case. The title
  of \<open>my_file.md\<close> is \<open>My File\<close>, that of \<open>a_b_c.md\<close> is \<open>A B C\<close>. This holds for every
  character database that agrees with Unicode on ASCII.
\<close>

theorem title_derivation:
  assumes "ascii_conform db"
  shows "derive_title db f = title db (replace_underscores (path_stem f))
    \<and> derive_title db f
        = join (asc '' '') (map (title db) (split 32 (replace_underscores (path_stem f))))
    \<and> 95 \<notin> set (replace_underscores (path_stem f))
    \<and> (st \<noteq> [] \<and> ext \<noteq> [] \<and> 46 \<notin> set ext \<and> 47 \<notin> set st \<and> 47 \<notin> set ext \<longrightarrow>
          path_stem (dir @ asc ''/'' @ st @ asc ''.'' @ ext) = st)
    \<and> (is_cased ascii_ucd c \<and> (\<forall>x \<in> set cs. is_cased ascii_ucd x) \<longrightarrow>
          title db (c # cs) = to_title_full ascii_ucd c @ concat (map (to_lower_full ascii_ucd) cs))
    \<and> derive_title db (asc ''my_file.md'') = asc ''My File''
    \<and> derive_title db (asc ''a_b_c.md'') = asc ''A B C''
    \<and> prev_entry db f = asc ''['' @ [LARROW] @ asc '' Previous: '' @ derive_title db f
         @ asc '']('' @ get_relative_link f @ asc '')''
    \<and> next_entry db f = asc ''[Next: '' @ derive_title db f @ asc '' '' @ [RARROW]
         @ asc '']('' @ get_relative_link f @ asc '')''"
proof -
  have words: "derive_title db f
      = join (asc '' '') (map (title db) (split 32 (replace_underscores (path_stem f))))"
    using title_words [OF assms, of "replace_underscores (path_stem f)"]
    by (simp add: derive_title_def asc_def)
  have stem: "path_stem (dir @ asc ''/'' @ st @ asc ''.'' @ ext) = st"
    if "st \<noteq> [] \<and> ext \<noteq> [] \<and> 46 \<notin> set ext \<and> 47 \<notin> set st \<and> 47 \<notin> set ext"
    using that path_stem_ext [of st ext dir] by (simp add: asc_def)
  have s1: "replace_underscores (path_stem (asc ''my_file.md'')) = asc ''my file''"
    by code_simp
  have s2: "replace_underscores (path_stem (asc ''a_b_c.md'')) = asc ''a b c''"
    by code_simp
  have a1: "\<forall>c \<in> set (asc ''my file''). c < 128" and a2: "\<forall>c \<in> set (asc ''a b c''). c < 128"
    by (simp_all add: asc_def)
  have t1: "title ascii_ucd (asc ''my file'') = asc ''My File''"
    by code_simp
  have t2: "title ascii_ucd (asc ''a b c'') = asc ''A B C''"
    by code_simp
  have e1: "derive_title db (asc ''my_file.md'') = asc ''My File''"
    using title_ascii [OF assms a1] by (simp add: derive_title_def s1 t1)
  have e2: "derive_title db (asc ''a_b_c.md'') = asc ''A B C''"
    using title_ascii [OF assms a2] by (simp add: derive_title_def s2 t2)
  have letters: "title db (c # cs) = to_title_full ascii_ucd c @ concat (map (to_lower_full ascii_ucd) cs)"
    if "is_cased ascii_ucd c \<and> (\<forall>x \<in> set cs. is_cased ascii_ucd x)"
    using that title_letters [OF assms, of c cs] by blast
  have d: "derive_title db f = title db (replace_underscores (path_stem f))"
    by (simp add: derive_title_def)
  have p: "prev_entry db f = asc ''['' @ [LARROW] @ asc '' Previous: '' @ derive_title db f
         @ asc '']('' @ get_relative_link f @ asc '')''"
    by (simp add: prev_entry_def)
  have n: "next_entry db f = asc ''[Next: '' @ derive_title db f @ asc '' '' @ [RARROW]
         @ asc '']('' @ get_relative_link f @ asc '')''"
    by (simp add: next_entry_def)
  show ?thesis
    using d words replace_underscores_none [of "path_stem f"] stem letters e1 e2 p n
    by blast
qed

theorem title_derivation_witness:
  "ascii_conform ascii_ucd
   \<and> path_stem (asc ''../docs'' @ asc ''/'' @ asc ''user_guide'' @ asc ''.'' @ asc ''md'')
       = asc ''user_guide''
   \<and> derive_title ascii_ucd (asc ''../docs/user_guide.md'') = asc ''User Guide''
   \<and> title ascii_ucd (asc ''gUIDE'') = asc ''Guide''
   \<and> derive_title ascii_ucd (asc ''my_file.md'') = asc ''My File''
   \<and> derive_title ascii_ucd (asc ''a_b_c.md'') = asc ''A B C''"
proof -
  have c: "ascii_conform ascii_ucd"
    by (simp add: ascii_conform_def)
  have h: "asc ''user_guide'' \<noteq> [] \<and> asc ''md'' \<noteq> [] \<and> 46 \<notin> set (asc ''md'')
      \<and> 47 \<notin> set (asc ''user_guide'') \<and> 47 \<notin> set (asc ''md'')"
    by (simp add: asc_def)
  have l: "is_cased ascii_ucd 103 \<and> (\<forall>x \<in> set (asc ''UIDE''). is_cased ascii_ucd x)"
    by (simp add: asc_def ascii_ucd_def)
  have g: "asc ''gUIDE'' = 103 # asc ''UIDE''"
    by (simp add: asc_def)
  have r: "to_title_full ascii_ucd 103 @ concat (map (to_lower_full ascii_ucd) (asc ''UIDE''))
      = asc ''Guide''"
    by code_simp
  have w: "join (asc '' '') (map (title ascii_ucd)
      (split 32 (replace_underscores (path_stem (asc ''../docs/user_guide.md''))))) = asc ''User Guide''"
    by code_simp
  from title_derivation [OF c, of "asc ''../docs/user_guide.md''" "asc ''user_guide''" "asc ''md''"
      "asc ''../docs''" 103 "asc ''UIDE''"] h l
  have "path_stem (asc ''../docs'' @ asc ''/'' @ asc ''user_guide'' @ asc ''.'' @ asc ''md'')
       = asc ''user_guide''"
    and "derive_title ascii_ucd (asc ''../docs/user_guide.md'')
       = join (asc '' '') (map (title ascii_ucd)
          (split 32 (replace_underscores (path_stem (asc ''../docs/user_guide.md'')))))"
    and "title ascii_ucd (103 # asc ''UIDE'')
       = to_title_full ascii_ucd 103 @ concat (map (to_lower_full ascii_ucd) (asc ''UIDE''))"
    and "derive_title ascii_ucd (asc ''my_file.md'') = asc ''My File''"
    and "derive_title ascii_ucd (asc ''a_b_c.md'') = asc ''A B C''"
    by blast+
  with c show ?thesis unfolding g r w by simp
qed

section \<open>The orchestrator: missing files\<close>

text \<open>
  C4. Let the index be readable and let every referenced path lead to nothing or to
  a text file that can be written. Then the run ends without an exception. It prints
  one line for each extracted path, in the order of the list: \<open>Warning: <path> not found\<close>
  for a path that leads to nothing, \<open>Updated <path>\<close> for the others. A missing file
  is not created, no file outside the list is touched, and when different paths of
  the list lead to different files, every file that is there gets the navigation of
  its own position, whatever is missing around it.
\<close>

theorem missing_files_are_skipped:
  assumes "files w readme_path = Some (File readme_content rw)"
    and "\<forall>f \<in> set (extract_doc_links_from_readme readme_content). updatable w (resolve f)"
  shows "\<exists>w'. process_documentation_files db resolve readme_path w = Inr w'
      \<and> stdout w' = stdout w
           @ map (report_line w resolve) (extract_doc_links_from_readme readme_content)
      \<and> (\<forall>l. (files w' l = None) = (files w l = None))
      \<and> (\<forall>l. l \<notin> resolve ` set (extract_doc_links_from_readme readme_content) \<longrightarrow>
             files w' l = files w l)
      \<and> (inj_on resolve (set (extract_doc_links_from_readme readme_content)) \<longrightarrow>
           (\<forall>i c. i < length (extract_doc_links_from_readme readme_content)
              \<and> files w (resolve (extract_doc_links_from_readme readme_content ! i))
                  = Some (File c True) \<longrightarrow>
              files w' (resolve (extract_doc_links_from_readme readme_content ! i))
                = Some (File (add_navigation_links db c
                     (prev_of (extract_doc_links_from_readme readme_content) i)
                     (next_of (extract_doc_links_from_readme readme_content) i)) True)))"
proof -
  define dfs where "dfs = extract_doc_links_from_readme readme_content"
  have run: "process_documentation_files db resolve readme_path w
      = process_loop db resolve dfs (enumerate_list dfs) w"
    using assms(1) by (simp add: process_documentation_files_def read_text_def dfs_def Let_def)
  from assms(2) have "\<forall>m \<in> set (enumerate_list dfs). updatable w (resolve (snd m))"
    using enumerate_list_snd [of dfs] unfolding dfs_def by (metis image_eqI list.set_map)
  from process_loop_updatable [OF this, of db dfs] obtain w'
    where "process_loop db resolve dfs (enumerate_list dfs) w = Inr w'
      \<and> stdout w' = stdout w @ map (report_line w resolve) (map snd (enumerate_list dfs))
      \<and> (\<forall>l. (files w' l = None) = (files w l = None))
      \<and> (\<forall>l. l \<notin> resolve ` snd ` set (enumerate_list dfs) \<longrightarrow> files w' l = files w l)
      \<and> (distinct (map (resolve \<circ> snd) (enumerate_list dfs)) \<longrightarrow>
           (\<forall>i f c. (i, f) \<in> set (enumerate_list dfs) \<and> files w (resolve f) = Some (File c True) \<longrightarrow>
              files w' (resolve f)
                = Some (File (add_navigation_links db c (prev_of dfs i) (next_of dfs i)) True)))" ..
  then have w': "process_loop db resolve dfs (enumerate_list dfs) w = Inr w'"
      "stdout w' = stdout w @ map (report_line w resolve) (map snd (enumerate_list dfs))"
      "\<forall>l. (files w' l = None) = (files w l = None)"
      "\<forall>l. l \<notin> resolve ` snd ` set (enumerate_list dfs) \<longrightarrow> files w' l = files w l"
      "distinct (map (resolve \<circ> snd) (enumerate_list dfs)) \<longrightarrow>
           (\<forall>i f c. (i, f) \<in> set (enumerate_list dfs) \<and> files w (resolve f) = Some (File c True) \<longrightarrow>
              files w' (resolve f)
                = Some (File (add_navigation_links db c (prev_of dfs i) (next_of dfs i)) True))"
    by simp_all
  have sn: "snd ` set (enumerate_list dfs) = set dfs"
    using enumerate_list_snd [of dfs] by (metis list.set_map)
  have dist: "distinct dfs"
    by (simp add: dfs_def extract_doc_links_from_readme_def fromkeys_def foldl_add_key_distinct)
  have 5: "files w' (resolve (dfs ! i))
      = Some (File (add_navigation_links db c (prev_of dfs i) (next_of dfs i)) True)"
    if inj: "inj_on resolve (set dfs)"
      and i: "i < length dfs \<and> files w (resolve (dfs ! i)) = Some (File c True)" for i c
  proof -
    from inj dist have "distinct (map resolve dfs)" by (simp add: distinct_map)
    then have "distinct (map (resolve \<circ> snd) (enumerate_list dfs))"
      using enumerate_list_snd [of dfs] by (metis map_map)
    moreover from i have "(i, dfs ! i) \<in> set (enumerate_list dfs)"
      by (simp add: enumerate_list_nth)
    ultimately show ?thesis using w'(5) i by blast
  qed
  from run w'(1) have "process_documentation_files db resolve readme_path w = Inr w'" by simp
  moreover from w'(2) have "stdout w' = stdout w @ map (report_line w resolve) dfs"
    by (simp add: enumerate_list_snd)
  moreover from w'(4) sn have "\<forall>l. l \<notin> resolve ` set dfs \<longrightarrow> files w' l = files w l" by simp
  ultimately show ?thesis using w'(3) 5 unfolding dfs_def by blast
qed

theorem missing_files_are_skipped_witness:
  "files example_world (asc ''README.md'') = Some (File example_readme True)
   \<and> extract_doc_links_from_readme example_readme
       = [asc ''docs/a.md'', asc ''docs/missing.md'', asc ''docs/b.md'']
   \<and> updatable example_world (asc ''docs/a.md'')
   \<and> updatable example_world (asc ''docs/missing.md'')
   \<and> updatable example_world (asc ''docs/b.md'')
   \<and> (\<exists>w'. process_documentation_files ascii_ucd (\<lambda>f. f) (asc ''README.md'') example_world = Inr w'
         \<and> stdout w' = [asc ''Updated docs/a.md'', asc ''Warning: docs/missing.md not found'',
                        asc ''Updated docs/b.md'']
         \<and> files w' (asc ''docs/missing.md'') = None)"
proof -
  have r: "files example_world (asc ''README.md'') = Some (File example_readme True)"
    by code_simp
  have e: "extract_doc_links_from_readme example_readme
      = [asc ''docs/a.md'', asc ''docs/missing.md'', asc ''docs/b.md'']"
    by code_simp
  have u1: "updatable example_world (asc ''docs/a.md'')"
    and u2: "updatable example_world (asc ''docs/missing.md'')"
    and u3: "updatable example_world (asc ''docs/b.md'')"
    by code_simp+
  from e u1 u2 u3
  have u: "\<forall>f \<in> set (extract_doc_links_from_readme example_readme). updatable example_world f"
    by simp
  have l: "stdout example_world
      @ map (report_line example_world (\<lambda>f. f)) (extract_doc_links_from_readme example_readme)
      = [asc ''Updated docs/a.md'', asc ''Warning: docs/missing.md not found'',
         asc ''Updated docs/b.md'']"
    by code_simp
  have m: "files example_world (asc ''docs/missing.md'') = None"
    by code_simp
  from missing_files_are_skipped [OF r, of "\<lambda>f. f" ascii_ucd] u
  obtain w' where "process_documentation_files ascii_ucd (\<lambda>f. f) (asc ''README.md'') example_world = Inr w'"
    "stdout w' = stdout example_world
      @ map (report_line example_world (\<lambda>f. f)) (extract_doc_links_from_readme example_readme)"
    "\<forall>l. (files w' l = None) = (files example_world l = None)"
    by blast
  with r e u1 u2 u3 l m show ?thesis by simp
qed

section \<open>The navigation injector: applying it twice\<close>

text \<open>
  C1 (as stated, refuted). With only a next file, the content \<open>x [Next: y\<close> has no
  newline behind its marker, so the first application keeps it; the output has a
  newline there, and the second application deletes \<open>[Next: y\<close>.
\<close>

theorem idempotence_counterexample:
  "add_navigation_links ascii_ucd (asc ''x [Next: y'') None (Some (asc ''docs/b.md''))
     = [NL] @ asc ''[Next: B '' @ [RARROW] @ asc ''](b.md)'' @ [NL, NL] @ asc ''x [Next: y''
       @ [NL, NL] @ asc ''[Next: B '' @ [RARROW] @ asc ''](b.md)'' @ [NL, NL]
   \<and> add_navigation_links ascii_ucd
        (add_navigation_links ascii_ucd (asc ''x [Next: y'') None (Some (asc ''docs/b.md'')))
        None (Some (asc ''docs/b.md''))
     = [NL] @ asc ''[Next: B '' @ [RARROW] @ asc ''](b.md)'' @ [NL, NL] @ asc ''x''
       @ [NL, NL] @ asc ''[Next: B '' @ [RARROW] @ asc ''](b.md)'' @ [NL, NL]
   \<and> add_navigation_links ascii_ucd
        (add_navigation_links ascii_ucd (asc ''x [Next: y'') None (Some (asc ''docs/b.md'')))
        None (Some (asc ''docs/b.md''))
     \<noteq> add_navigation_links ascii_ucd (asc ''x [Next: y'') None (Some (asc ''docs/b.md''))"
  by code_simp

text \<open>
  C1 (amended). Applying the injector twice with the same previous and next file
  gives what applying it once gives, provided that the navigation line holds no
  newline, that it holds no \<open>[\<leftarrow> Previous:\<close> when there is no previous file, and that the
  body left by the first application holds neither \<open>[\<leftarrow> Previous:\<close> nor \<open>[Next:\<close>.
\<close>

theorem add_navigation_links_idempotent:
  assumes "NL \<notin> set (nav_text db prev next)"
    and "\<not> truthy prev \<longrightarrow> \<not> contains PREV_MARK (nav_text db prev next)"
    and "\<not> contains PREV_MARK (strip (strip_navigation content))"
    and "\<not> contains NEXT_MARK (strip (strip_navigation content))"
  shows "add_navigation_links db (add_navigation_links db content prev next) prev next
       = add_navigation_links db content prev next"
proof (cases "truthy prev \<or> truthy next")
  case False
  then have "navigation db prev next = []" using nav_some_truthy [of prev "next" db] by blast
  then show ?thesis by (simp add: add_navigation_links_def)
next
  case True
  then have n: "navigation db prev next \<noteq> []" using nav_some_truthy [of prev "next" db] by blast
  define b where "b = strip (strip_navigation content)"
  have ws: "\<forall>c \<in> set [NL, NL]. is_whitespace c" "\<forall>c \<in> set [NL, NL, NL]. is_whitespace c"
    by (simp_all add: is_whitespace_NL)
  have once: "add_navigation_links db content prev next
      = [NL] @ nav_text db prev next @ [NL, NL] @ b @ [NL, NL] @ nav_text db prev next @ [NL, NL]"
    unfolding b_def using n by (rule add_navigation_links_layout)
  have "strip (strip_navigation (add_navigation_links db content prev next))
      = strip ([NL, NL] @ b @ [NL, NL, NL])"
    unfolding once using assms True by (subst strip_own_output) (simp_all add: b_def)
  also have "\<dots> = b"
    unfolding b_def using ws by (rule strip_padded)
  finally have "strip (strip_navigation (add_navigation_links db content prev next)) = b" .
  then have "add_navigation_links db (add_navigation_links db content prev next) prev next
      = [NL] @ nav_text db prev next @ [NL, NL] @ b @ [NL, NL] @ nav_text db prev next @ [NL, NL]"
    using add_navigation_links_layout [OF n, of "add_navigation_links db content prev next"]
    by simp
  with once show ?thesis by simp
qed


theorem add_navigation_links_idempotent_witness:
  "NL \<notin> set (nav_text ascii_ucd (Some (asc ''docs/a.md'')) (Some (asc ''docs/c.md'')))
   \<and> truthy (Some (asc ''docs/a.md''))
   \<and> \<not> contains PREV_MARK (strip (strip_navigation example_page))
   \<and> \<not> contains NEXT_MARK (strip (strip_navigation example_page))
   \<and> add_navigation_links ascii_ucd
        (add_navigation_links ascii_ucd example_page (Some (asc ''docs/a.md'')) (Some (asc ''docs/c.md'')))
        (Some (asc ''docs/a.md'')) (Some (asc ''docs/c.md''))
       = add_navigation_links ascii_ucd example_page (Some (asc ''docs/a.md'')) (Some (asc ''docs/c.md''))"
proof -
  have h1: "NL \<notin> set (nav_text ascii_ucd (Some (asc ''docs/a.md'')) (Some (asc ''docs/c.md'')))"
    by code_simp
  have h2: "\<not> truthy (Some (asc ''docs/a.md'')) \<longrightarrow>
        \<not> contains PREV_MARK (nav_text ascii_ucd (Some (asc ''docs/a.md'')) (Some (asc ''docs/c.md'')))"
    by (simp add: asc_def)
  have h3: "\<not> contains PREV_MARK (strip (strip_navigation example_page))"
    by code_simp
  have h4: "\<not> contains NEXT_MARK (strip (strip_navigation example_page))"
    by code_simp
  have t: "truthy (Some (asc ''docs/a.md''))"
    by (simp add: asc_def)
  from add_navigation_links_idempotent [OF h1 h2 h3 h4] h1 t h3 h4 show ?thesis by blast
qed

section \<open>The navigation injector: what is deleted and what is kept\<close>

text \<open>
  C10 (as stated, refuted). The content \<open>[Next: a [\<leftarrow> Previous: b\<close> with its newline is
  one segment from \<open>[Next:\<close> to the newline, so deleting every segment leaves nothing.
  The injector deletes from \<open>[\<leftarrow> Previous:\<close> to the newline first; the \<open>[Next:\<close> that is left
  has no newline behind it any more and stays in the body.
\<close>

theorem segment_deletion_counterexample:
  "example_unfinished = asc ''[Next: a ['' @ [LARROW] @ asc '' Previous: b'' @ [NL]
   \<and> has_navigation example_unfinished
   \<and> delete_segments example_unfinished = []
   \<and> strip_navigation example_unfinished = asc ''[Next: a ''
   \<and> strip_navigation example_unfinished \<noteq> delete_segments example_unfinished
   \<and> add_navigation_links ascii_ucd example_unfinished None (Some (asc ''docs/b.md''))
       = [NL] @ asc ''[Next: B '' @ [RARROW] @ asc ''](b.md)'' @ [NL, NL] @ asc ''[Next: a''
         @ [NL, NL] @ asc ''[Next: B '' @ [RARROW] @ asc ''](b.md)'' @ [NL, NL]"
  by code_simp

text \<open>
  C10 (amended). When a previous or a next file is given, the body between the two
  navigation lines is the content, stripped, from which the injector has deleted every
  segment from \<open>[\<leftarrow> Previous:\<close> through the next newline and then, in what is left, every
  segment from \<open>[Next:\<close> through the next newline, whoever wrote them. For content with
  no \<open>[\<leftarrow> Previous:\<close> segment that is the content without any of its segments. For
  content with no segment of either kind the stripped content stands there unchanged.
\<close>

theorem body_preservation:
  assumes "truthy prev \<or> truthy next"
  shows "add_navigation_links db content prev next
           = [NL] @ nav_text db prev next @ [NL, NL]
             @ strip (delete_marked [NEXT_MARK] False (delete_marked [PREV_MARK] False content))
             @ [NL, NL] @ nav_text db prev next @ [NL, NL]
         \<and> (\<not> has_segment [PREV_MARK] content \<longrightarrow>
               add_navigation_links db content prev next
                 = [NL] @ nav_text db prev next @ [NL, NL] @ strip (delete_segments content)
                   @ [NL, NL] @ nav_text db prev next @ [NL, NL])
         \<and> (\<not> has_segment [PREV_MARK, NEXT_MARK] content \<longrightarrow>
               add_navigation_links db content prev next
                 = [NL] @ nav_text db prev next @ [NL, NL] @ strip content
                   @ [NL, NL] @ nav_text db prev next @ [NL, NL])"
proof -
  from assms have n: "navigation db prev next \<noteq> []"
    using nav_some_truthy [of prev "next" db] by blast
  note lay = add_navigation_links_layout [OF n, of content]
  have two: "strip_navigation content
      = delete_marked [NEXT_MARK] False (delete_marked [PREV_MARK] False content)"
    by (rule strip_navigation_two_passes)
  have one: "strip_navigation content = delete_segments content"
    if "\<not> has_segment [PREV_MARK] content"
    using that by (simp add: two delete_segments_def delete_marked_second delete_marked_none)
  have none: "strip_navigation content = content"
    if "\<not> has_segment [PREV_MARK, NEXT_MARK] content"
    using that by (simp add: two has_segment_two delete_marked_none)
  from lay two one none show ?thesis by simp
qed

theorem body_preservation_witness:
  "truthy (Some (asc ''docs/b.md''))
   \<and> \<not> has_segment [PREV_MARK] example_authored
   \<and> add_navigation_links ascii_ucd example_authored None (Some (asc ''docs/b.md''))
       = [NL] @ asc ''[Next: B '' @ [RARROW] @ asc ''](b.md)'' @ [NL, NL]
         @ asc ''intro'' @ [NL] @ asc ''see end''
         @ [NL, NL] @ asc ''[Next: B '' @ [RARROW] @ asc ''](b.md)'' @ [NL, NL]
   \<and> \<not> has_segment [PREV_MARK, NEXT_MARK] (asc ''  plain text'')
   \<and> add_navigation_links ascii_ucd (asc ''  plain text'') None (Some (asc ''docs/b.md''))
       = [NL] @ asc ''[Next: B '' @ [RARROW] @ asc ''](b.md)'' @ [NL, NL]
         @ asc ''plain text''
         @ [NL, NL] @ asc ''[Next: B '' @ [RARROW] @ asc ''](b.md)'' @ [NL, NL]"
proof -
  have t: "truthy None \<or> truthy (Some (asc ''docs/b.md''))"
    by (simp add: asc_def)
  have s1: "\<not> has_segment [PREV_MARK] example_authored"
    by code_simp
  have s2: "\<not> has_segment [PREV_MARK, NEXT_MARK] (asc ''  plain text'')"
    by code_simp
  have n: "nav_text ascii_ucd None (Some (asc ''docs/b.md'')) = asc ''[Next: B '' @ [RARROW] @ asc ''](b.md)''"
    by code_simp
  have d: "strip (delete_segments example_authored) = asc ''intro'' @ [NL] @ asc ''see end''"
    by code_simp
  have p: "strip (asc ''  plain text'') = asc ''plain text''"
    by code_simp
  from body_preservation [OF t, of ascii_ucd example_authored] s1
  have 1: "add_navigation_links ascii_ucd example_authored None (Some (asc ''docs/b.md''))
      = [NL] @ nav_text ascii_ucd None (Some (asc ''docs/b.md'')) @ [NL, NL]
        @ strip (delete_segments example_authored)
        @ [NL, NL] @ nav_text ascii_ucd None (Some (asc ''docs/b.md'')) @ [NL, NL]"
    by blast
  from body_preservation [OF t, of ascii_ucd "asc ''  plain text''"] s2
  have 2: "add_navigation_links ascii_ucd (asc ''  plain text'') None (Some (asc ''docs/b.md''))
      = [NL] @ nav_text ascii_ucd None (Some (asc ''docs/b.md'')) @ [NL, NL]
        @ strip (asc ''  plain text'')
        @ [NL, NL] @ nav_text ascii_ucd None (Some (asc ''docs/b.md'')) @ [NL, NL]"
    by blast
  show ?thesis unfolding 1 2 n d p using s1 s2 by (simp add: asc_def)
qed

end
